theory Spec2Isabelle
  imports Main "HOL-Library.Sublist"
begin

section \<open>JavaScript strings and regular expressions\<close>

text \<open>
  A JavaScript string is modelled as a \<^typ>\<open>string\<close>: a list of code units, here the
  8-bit ones. Everything the program tests for (the backtick, the star, the dash, the
  slash, the ASCII letters, the white space) lies in that range.
\<close>

definition is_alpha :: "char \<Rightarrow> bool" where
  \<comment> \<open>the class \<^verbatim>\<open>[a-zA-Z]\<close>\<close>
  "is_alpha c = ((97 \<le> (of_char c :: nat) \<and> (of_char c :: nat) \<le> 122) \<or>
                 (65 \<le> (of_char c :: nat) \<and> (of_char c :: nat) \<le> 90))"

definition is_space :: "char \<Rightarrow> bool" where
  \<comment> \<open>the class \<^verbatim>\<open>\s\<close>, which is also what \<^verbatim>\<open>trim\<close> removes: TAB, LF, VT, FF, CR, SP, NBSP\<close>
  "is_space c = ((of_char c :: nat) \<in> {9, 10, 11, 12, 13, 32, 160})"

definition is_newline :: "char \<Rightarrow> bool" where
  \<comment> \<open>the escape \<^verbatim>\<open>\n\<close>\<close>
  "is_newline c = ((of_char c :: nat) = 10)"

definition any_char :: "char \<Rightarrow> bool" where
  \<comment> \<open>the class \<^verbatim>\<open>[\s\S]\<close>\<close>
  "any_char c = (is_space c \<or> \<not> is_space c)"

definition dot_char :: "char \<Rightarrow> bool" where
  \<comment> \<open>the atom \<^verbatim>\<open>.\<close>: every code unit but the line terminators LF and CR\<close>
  "dot_char c = ((of_char c :: nat) \<noteq> 10 \<and> (of_char c :: nat) \<noteq> 13)"

definition not_slash :: "char \<Rightarrow> bool" where
  \<comment> \<open>the class \<^verbatim>\<open>[^\/]\<close>\<close>
  "not_slash c = ((of_char c :: nat) \<noteq> 47)"

definition trim :: "string \<Rightarrow> string" where
  \<comment> \<open>\<^verbatim>\<open>String.prototype.trim\<close>\<close>
  "trim s = rev (dropWhile is_space (rev (dropWhile is_space s)))"

definition startsWith :: "string \<Rightarrow> string \<Rightarrow> bool" where
  \<comment> \<open>\<^verbatim>\<open>s.startsWith(p)\<close>\<close>
  "startsWith s p = prefix p s"

definition endsWith :: "string \<Rightarrow> string \<Rightarrow> bool" where
  \<comment> \<open>\<^verbatim>\<open>s.endsWith(p)\<close>\<close>
  "endsWith s p = suffix p s"

definition truthy :: "string \<Rightarrow> bool" where
  \<comment> \<open>a string is falsy exactly when it is empty\<close>
  "truthy s = (s \<noteq> [])"

fun split_on :: "char \<Rightarrow> string \<Rightarrow> string \<Rightarrow> string list" where
  \<comment> \<open>\<^verbatim>\<open>s.split(c)\<close> for a one-character separator; the second argument is the piece
     read so far\<close>
  "split_on sep cur [] = [cur]"
| "split_on sep cur (c # cs) =
     (if c = sep then cur # split_on sep [] cs else split_on sep (cur @ [c]) cs)"

text \<open>
  The regular expressions of the program use character classes, literals, sequence, the
  greedy option \<^verbatim>\<open>?\<close>, the greedy and the lazy star over a class, one level of capture
  groups and the two anchors. A match state is the input still to read and the captures
  closed so far; \<open>rx_run\<close> lists the states a pattern can reach, in the order in which
  the backtracking matcher of ECMAScript tries them, so the first state is the match.
\<close>

datatype rx =
    Cls "char \<Rightarrow> bool"
  | Lit string
  | Seq rx rx
  | Opt rx
  | StarG "char \<Rightarrow> bool"
  | StarL "char \<Rightarrow> bool"
  | Cap rx
  | Bos
  | Eos

type_synonym mstate = "string \<times> string list"

fun star_greedy :: "(char \<Rightarrow> bool) \<Rightarrow> string list \<Rightarrow> string \<Rightarrow> mstate list" where
  "star_greedy P caps [] = [([], caps)]"
| "star_greedy P caps (c # cs) =
     (if P c then star_greedy P caps cs @ [(c # cs, caps)] else [(c # cs, caps)])"

fun star_lazy :: "(char \<Rightarrow> bool) \<Rightarrow> string list \<Rightarrow> string \<Rightarrow> mstate list" where
  "star_lazy P caps [] = [([], caps)]"
| "star_lazy P caps (c # cs) =
     (c # cs, caps) # (if P c then star_lazy P caps cs else [])"

primrec rx_run :: "rx \<Rightarrow> nat \<Rightarrow> mstate \<Rightarrow> mstate list" where
  \<comment> \<open>the second argument is the length of the whole subject, for the anchor \<^verbatim>\<open>^\<close>\<close>
  "rx_run (Cls P) n st =
     (case fst st of [] \<Rightarrow> [] | c # cs \<Rightarrow> if P c then [(cs, snd st)] else [])"
| "rx_run (Lit l) n st =
     (if prefix l (fst st) then [(drop (length l) (fst st), snd st)] else [])"
| "rx_run (Seq a b) n st = concat (map (rx_run b n) (rx_run a n st))"
| "rx_run (Opt a) n st = rx_run a n st @ [st]"
| "rx_run (StarG P) n st = star_greedy P (snd st) (fst st)"
| "rx_run (StarL P) n st = star_lazy P (snd st) (fst st)"
| "rx_run (Cap a) n st =
     map (\<lambda>st'. (fst st', snd st' @ [take (length (fst st) - length (fst st')) (fst st)]))
       (rx_run a n st)"
| "rx_run Bos n st = (if length (fst st) = n then [st] else [])"
| "rx_run Eos n st = (if fst st = [] then [st] else [])"

definition rx_match_at :: "rx \<Rightarrow> nat \<Rightarrow> string \<Rightarrow> (nat \<times> string list) option" where
  \<comment> \<open>a sticky match at the head of \<open>s\<close>: the number of code units matched and the captures\<close>
  "rx_match_at r n s =
     (case rx_run r n (s, []) of
        [] \<Rightarrow> None
      | st # _ \<Rightarrow> Some (length s - length (fst st), snd st))"

fun rx_search :: "rx \<Rightarrow> nat \<Rightarrow> string \<Rightarrow> string \<Rightarrow> (string \<times> nat \<times> string list) option" where
  \<comment> \<open>\<^verbatim>\<open>RegExp.prototype.exec\<close> without the sticky flag: the leftmost position with a match;
     the result is the text before the match, the length of the match and the captures\<close>
  "rx_search r n pre [] =
     (case rx_match_at r n [] of None \<Rightarrow> None | Some (k, caps) \<Rightarrow> Some (pre, k, caps))"
| "rx_search r n pre (c # cs) =
     (case rx_match_at r n (c # cs) of
        None \<Rightarrow> rx_search r n (pre @ [c]) cs
      | Some (k, caps) \<Rightarrow> Some (pre, k, caps))"

definition rx_exec :: "rx \<Rightarrow> string \<Rightarrow> (string \<times> nat \<times> string list) option" where
  "rx_exec r s = rx_search r (length s) [] s"

definition replace_first :: "rx \<Rightarrow> string \<Rightarrow> string" where
  \<comment> \<open>\<^verbatim>\<open>s.replace(r, '')\<close> for a pattern without the global flag\<close>
  "replace_first r s =
     (case rx_exec r s of
        None \<Rightarrow> s
      | Some (pre, k, caps) \<Rightarrow> pre @ drop k (drop (length pre) s))"

definition match_groups :: "rx \<Rightarrow> string \<Rightarrow> string list option" where
  \<comment> \<open>\<^verbatim>\<open>s.match(r)\<close> for a pattern without the global flag: the match, then the captures\<close>
  "match_groups r s =
     (case rx_exec r s of
        None \<Rightarrow> None
      | Some (pre, k, caps) \<Rightarrow> Some (take k (drop (length pre) s) # caps))"

function split_loop :: "rx \<Rightarrow> nat \<Rightarrow> string \<Rightarrow> string \<Rightarrow> string list" where
  \<comment> \<open>the loop of \<^verbatim>\<open>RegExp.prototype[Symbol.split]\<close>: \<open>pend\<close> is the text between the end
     \<open>p\<close> of the last separator and the position \<open>q\<close> under test, \<open>s\<close> the text from \<open>q\<close> on\<close>
  "split_loop r n pend [] = [pend]"
| "split_loop r n pend (c # cs) =
     (case rx_match_at r n (c # cs) of
        None \<Rightarrow> split_loop r n (pend @ [c]) cs
      | Some (k, caps) \<Rightarrow>
          if k = 0 \<and> pend = [] then split_loop r n (pend @ [c]) cs
          else pend # caps @ split_loop r n [] (drop k (c # cs)))"
  by pat_completeness auto
termination
  by (relation "measure (\<lambda>(r, n, pend, s). 2 * length s + (if pend = [] then 0 else 1))")
     auto

definition split_rx :: "rx \<Rightarrow> string \<Rightarrow> string list" where
  \<comment> \<open>\<^verbatim>\<open>s.split(r)\<close>\<close>
  "split_rx r s =
     (if s = [] then (case rx_match_at r 0 [] of None \<Rightarrow> [[]] | Some z \<Rightarrow> [])
      else split_loop r (length s) [] s)"


section \<open>The response renderer\<close>

text \<open>
  \<^verbatim>\<open>MarkdownResponse\<close> (src/index.tsx, lines 709 to 751). Its patterns, in the order in
  which the component uses them:
  \<^verbatim>\<open>/(```(?:[a-zA-Z]*\n)?[\s\S]*?```)/g\<close>, \<^verbatim>\<open>/^```[a-zA-Z]*\n?/\<close>, \<^verbatim>\<open>/```$/\<close>,
  \<^verbatim>\<open>/^```([a-zA-Z]*)/\<close> and \<^verbatim>\<open>/(\*\*.*?\*\*)/g\<close>.
\<close>

definition fence :: string where
  "fence = ''```''"

definition fence_rx :: rx where
  "fence_rx =
     Cap (Seq (Lit fence)
         (Seq (Opt (Seq (StarG is_alpha) (Cls is_newline)))
         (Seq (StarL any_char) (Lit fence))))"

definition open_fence_rx :: rx where
  "open_fence_rx = Seq Bos (Seq (Lit fence) (Seq (StarG is_alpha) (Opt (Cls is_newline))))"

definition close_fence_rx :: rx where
  "close_fence_rx = Seq (Lit fence) Eos"

definition lang_rx :: rx where
  "lang_rx = Seq Bos (Seq (Lit fence) (Cap (StarG is_alpha)))"

definition bold_rx :: rx where
  "bold_rx = Cap (Seq (Lit ''**'') (Seq (StarL dot_char) (Lit ''**'')))"

text \<open>
  What the component returns: one element per part. A list item that the source maps to
  \<^verbatim>\<open>false\<close> is \<open>None\<close>: React renders nothing for it.
\<close>

datatype inline =
    Strong string
  | Ul "string option list"
  | Span string

datatype node =
    CodeComparison string string string
  | CodeBlock string string
  | Div "inline list"

definition parts :: "string \<Rightarrow> string list" where
  \<comment> \<open>\<^verbatim>\<open>content.split(/(...)/g).filter(Boolean)\<close>\<close>
  "parts content = filter truthy (split_rx fence_rx content)"

definition isCodeBlock :: "string \<Rightarrow> bool" where
  "isCodeBlock part = startsWith part fence"

definition code_body :: "string \<Rightarrow> string" where
  \<comment> \<open>\<^verbatim>\<open>part.replace(/^```[a-zA-Z]*\n?/, '').replace(/```$/, '').trim()\<close>\<close>
  "code_body part = trim (replace_first close_fence_rx (replace_first open_fence_rx part))"

definition code_lang :: "string \<Rightarrow> string" where
  \<comment> \<open>\<^verbatim>\<open>part.match(/^```([a-zA-Z]*)/)?.[1] || ''\<close>\<close>
  "code_lang part =
     (case match_groups lang_rx part of
        Some (m # g # gs) \<Rightarrow> g
      | _ \<Rightarrow> [])"

definition is_marker :: "string \<Rightarrow> bool" where
  "is_marker s = (startsWith s ''* '' \<or> startsWith s ''- '')"

definition slice :: "string \<Rightarrow> nat \<Rightarrow> nat \<Rightarrow> string" where
  \<comment> \<open>\<^verbatim>\<open>s.slice(a, -b)\<close>: empty when the end is not after the start\<close>
  "slice s a b = take ((length s - b) - a) (drop a s)"

definition list_item :: "string \<Rightarrow> string option" where
  \<comment> \<open>\<^verbatim>\<open>(item.trim().startsWith('* ') || item.trim().startsWith('- ')) && <li>...</li>\<close>\<close>
  "list_item item = (if is_marker (trim item) then Some (drop 2 (trim item)) else None)"

definition render_text :: "string \<Rightarrow> inline" where
  "render_text t =
     (if startsWith t ''**'' \<and> endsWith t ''**'' then Strong (slice t 2 2)
      else if is_marker (trim t) then Ul (map list_item (split_on (CHR 0x0A) [] (trim t)))
      else Span t)"

definition formattedPart :: "string \<Rightarrow> inline list" where
  "formattedPart part = map render_text (split_rx bold_rx part)"

definition prop_truthy :: "string option \<Rightarrow> bool" where
  \<comment> \<open>an optional string property in a condition: given and not empty\<close>
  "prop_truthy p = (case p of None \<Rightarrow> False | Some s \<Rightarrow> truthy s)"

definition prop_value :: "string option \<Rightarrow> string" where
  "prop_value p = (case p of None \<Rightarrow> [] | Some s \<Rightarrow> s)"

fun render_parts :: "string option \<Rightarrow> string option \<Rightarrow> bool \<Rightarrow> string list \<Rightarrow> node list" where
  \<comment> \<open>\<^verbatim>\<open>parts.map(...)\<close>; the third argument is the variable \<^verbatim>\<open>diffHasBeenRendered\<close>\<close>
  "render_parts originalCode lang diffHasBeenRendered [] = []"
| "render_parts originalCode lang diffHasBeenRendered (part # ps) =
     (if isCodeBlock part \<and> prop_truthy originalCode \<and> prop_truthy lang \<and> \<not> diffHasBeenRendered
      then CodeComparison (prop_value originalCode) (code_body part) (prop_value lang)
             # render_parts originalCode lang True ps
      else if isCodeBlock part
      then CodeBlock (code_lang part) (code_body part)
             # render_parts originalCode lang diffHasBeenRendered ps
      else Div (formattedPart part) # render_parts originalCode lang diffHasBeenRendered ps)"

definition MarkdownResponse :: "string \<Rightarrow> string option \<Rightarrow> string option \<Rightarrow> node list" where
  "MarkdownResponse content originalCode lang =
     render_parts originalCode lang False (parts content)"


section \<open>The code block and its language\<close>





definition CodeBlock_label :: "string \<Rightarrow> string" where
  \<comment> \<open>\<^verbatim>\<open>language || 'code'\<close>, the caption of the block\<close>
  "CodeBlock_label lang = (if truthy lang then lang else ''code'')"



section \<open>The mode dispatcher\<close>

text \<open>The state of \<^verbatim>\<open>CodeAssistant\<close> (lines 754 to 761) and of \<^verbatim>\<open>App\<close> (lines 918, 919).\<close>

datatype AiMode =
    ASSIST
  | GENERATE
  | DEBUG
  | REFACTOR
  | REVIEW
  | GENERATE_DOCS
  | GENERATE_TESTS
  | ANALYZE_REPO

datatype Theme = Light | Dark

record assistant =
  mode :: AiMode
  language :: string
  code :: string
  userInput :: string
  response :: string
  isLoading :: bool
  error :: "string option"
  originalCodeForDiff :: string

record app =
  isAuthenticated :: bool
  theme :: Theme
  codeAssistant :: assistant

text \<open>
  The external collaborators: the eight service functions and \<^verbatim>\<open>fetch\<close>. A call is
  recorded with its arguments; the world answers it with a value (\<open>Inr\<close>) or with the
  message of the exception it throws (\<open>Inl\<close>).
\<close>

datatype ext_call =
    AnalyzeCode string string string
  | GenerateCode string string
  | DebugAndExecuteCode string string
  | RefactorCode string string
  | ReviewCode string string
  | GenerateDocs string string
  | GenerateTests string string
  | AnalyzeRepo string
  | Fetch string

record http_response =
  ok :: bool
  status_code :: string
  json_download_url :: "string + string"
  body_text :: "string + string"

record world =
  service :: "ext_call \<Rightarrow> string + string"
  fetch :: "string \<Rightarrow> string + http_response"

text \<open>How a branch of the \<^verbatim>\<open>switch\<close> ends: by \<^verbatim>\<open>return\<close> (the state as the branch left
  it), by an exception that reaches the outer \<^verbatim>\<open>catch\<close>, or by \<^verbatim>\<open>break\<close> with the local
  variables \<^verbatim>\<open>originalCode\<close> and \<^verbatim>\<open>result\<close>. Each carries the external calls made.\<close>

datatype branch =
    Returned assistant "ext_call list"
  | Thrown string "ext_call list"
  | Broke string string "ext_call list"

definition github_rx :: rx where
  \<comment> \<open>\<^verbatim>\<open>/github\.com\/([^\/]+)\/([^\/]+)/\<close>\<close>
  "github_rx =
     Seq (Lit ''github.com/'')
    (Seq (Cap (Seq (Cls not_slash) (StarG not_slash)))
    (Seq (Lit ''/'')
         (Cap (Seq (Cls not_slash) (StarG not_slash)))))"

definition dot_git_rx :: rx where
  \<comment> \<open>\<^verbatim>\<open>/\.git$/\<close>\<close>
  "dot_git_rx = Seq (Lit ''.git'') Eos"

definition start :: "assistant \<Rightarrow> assistant" where
  \<comment> \<open>lines 764 to 767\<close>
  "start st = st\<lparr>isLoading := True, response := [], error := None, originalCodeForDiff := []\<rparr>"

definition reject :: "string \<Rightarrow> assistant \<Rightarrow> ext_call list \<Rightarrow> branch" where
  \<comment> \<open>\<^verbatim>\<open>setError(msg); setIsLoading(false); return;\<close>\<close>
  "reject msg st calls = Returned (st\<lparr>error := Some msg, isLoading := False\<rparr>) calls"

definition call_service :: "world \<Rightarrow> ext_call \<Rightarrow> string \<Rightarrow> branch" where
  \<comment> \<open>\<^verbatim>\<open>result = await f(...); break;\<close> with the value of \<^verbatim>\<open>originalCode\<close> at that point\<close>
  "call_service w c originalCode =
     (case service w c of
        Inl msg \<Rightarrow> Thrown msg [c]
      | Inr result \<Rightarrow> Broke originalCode result [c])"

definition fetch_readme :: "world \<Rightarrow> assistant \<Rightarrow> string \<Rightarrow> string \<Rightarrow> branch" where
  \<comment> \<open>the inner \<^verbatim>\<open>try\<close> of lines 808 to 815; its \<^verbatim>\<open>catch\<close> shows the message and returns\<close>
  "fetch_readme w st owner repo =
     (let meta_url = ''https://api.github.com/repos/'' @ owner @ ''/''
                       @ replace_first dot_git_rx repo @ ''/readme'' in
      case fetch w meta_url of
        Inl msg \<Rightarrow> reject msg st [Fetch meta_url]
      | Inr readmeMetaResponse \<Rightarrow>
          if \<not> ok readmeMetaResponse
          then reject (''Failed to fetch repo metadata (status: ''
                         @ status_code readmeMetaResponse
                         @ ''). Check URL or API rate limits.'') st [Fetch meta_url]
          else
            (case json_download_url readmeMetaResponse of
               Inl msg \<Rightarrow> reject msg st [Fetch meta_url]
             | Inr download_url \<Rightarrow>
                 (case fetch w download_url of
                    Inl msg \<Rightarrow> reject msg st [Fetch meta_url, Fetch download_url]
                  | Inr readmeContentResponse \<Rightarrow>
                      if \<not> ok readmeContentResponse
                      then reject ''Failed to download README content.'' st
                             [Fetch meta_url, Fetch download_url]
                      else
                        (case body_text readmeContentResponse of
                           Inl msg \<Rightarrow> reject msg st [Fetch meta_url, Fetch download_url]
                         | Inr readme \<Rightarrow>
                             (case service w (AnalyzeRepo readme) of
                                Inl msg \<Rightarrow>
                                  reject msg st
                                    [Fetch meta_url, Fetch download_url, AnalyzeRepo readme]
                              | Inr result \<Rightarrow>
                                  Broke [] result
                                    [Fetch meta_url, Fetch download_url, AnalyzeRepo readme])))))"

definition dispatch :: "world \<Rightarrow> assistant \<Rightarrow> branch" where
  \<comment> \<open>the \<^verbatim>\<open>switch (mode)\<close> of lines 771 to 817\<close>
  "dispatch w st =
     (case mode st of
        ASSIST \<Rightarrow>
          if \<not> truthy (code st) \<or> \<not> truthy (userInput st)
          then reject ''Please provide both code and a problem description.'' st []
          else call_service w (AnalyzeCode (code st) (userInput st) (language st)) (code st)
      | GENERATE \<Rightarrow>
          if \<not> truthy (userInput st)
          then reject ''Please provide a description for the code to generate.'' st []
          else call_service w (GenerateCode (userInput st) (language st)) []
      | DEBUG \<Rightarrow>
          if \<not> truthy (code st)
          then reject ''Please provide code to debug.'' st []
          else call_service w (DebugAndExecuteCode (code st) (language st)) (code st)
      | REFACTOR \<Rightarrow>
          if \<not> truthy (code st)
          then reject ''Please provide code to refactor.'' st []
          else call_service w (RefactorCode (code st) (language st)) (code st)
      | REVIEW \<Rightarrow>
          if \<not> truthy (code st)
          then reject ''Please provide code to review.'' st []
          else call_service w (ReviewCode (code st) (language st)) []
      | GENERATE_DOCS \<Rightarrow>
          if \<not> truthy (code st)
          then reject ''Please provide code to generate documentation for.'' st []
          else call_service w (GenerateDocs (code st) (language st)) []
      | GENERATE_TESTS \<Rightarrow>
          if \<not> truthy (code st)
          then reject ''Please provide code to generate tests for.'' st []
          else call_service w (GenerateTests (code st) (language st)) []
      | ANALYZE_REPO \<Rightarrow>
          if \<not> truthy (userInput st)
          then reject ''Please provide a public GitHub repository URL.'' st []
          else
            (case match_groups github_rx (userInput st) of
               None \<Rightarrow>
                 reject ''Invalid GitHub repository URL. Use format: https://github.com/owner/repo''
                   st []
             | Some groups \<Rightarrow>
                 (case groups of
                    m # owner # repo # gs \<Rightarrow> fetch_readme w st owner repo
                  | _ \<Rightarrow> reject ''repo is undefined'' st [])))"

definition handleSubmit :: "world \<Rightarrow> assistant \<Rightarrow> assistant \<times> ext_call list" where
  \<comment> \<open>lines 763 to 826: the clearing, the \<^verbatim>\<open>switch\<close>, then lines 818 and 819 or the outer
     \<^verbatim>\<open>catch\<close>, and \<^verbatim>\<open>finally\<close> in every case\<close>
  "handleSubmit w st =
     (case dispatch w (start st) of
        Returned st' calls \<Rightarrow> (st'\<lparr>isLoading := False\<rparr>, calls)
      | Thrown msg calls \<Rightarrow>
          ((start st)\<lparr>error := Some (if truthy msg then msg
                                      else ''An unexpected error occurred.''),
                      response := [], isLoading := False\<rparr>, calls)
      | Broke originalCode result calls \<Rightarrow>
          ((start st)\<lparr>originalCodeForDiff := originalCode, response := result,
                      isLoading := False\<rparr>, calls))"

definition ModeButton_onClick :: "AiMode \<Rightarrow> assistant \<Rightarrow> assistant" where
  \<comment> \<open>line 829\<close>
  "ModeButton_onClick v st =
     st\<lparr>mode := v, response := [], code := [], userInput := [], error := None,
        originalCodeForDiff := []\<rparr>"

definition click_mode :: "AiMode \<Rightarrow> app \<Rightarrow> app" where
  \<comment> \<open>the click reaches the setters of \<^verbatim>\<open>CodeAssistant\<close> only\<close>
  "click_mode v a = a\<lparr>codeAssistant := ModeButton_onClick v (codeAssistant a)\<rparr>"

datatype panel = LoadingSpinner | Rendered "node list" | Placeholder

definition response_panel :: "assistant \<Rightarrow> panel" where
  \<comment> \<open>lines 906 to 908\<close>
  "response_panel st =
     (if isLoading st then LoadingSpinner
      else if truthy (response st)
      then Rendered (MarkdownResponse (response st) (Some (originalCodeForDiff st))
                       (Some (language st)))
      else Placeholder)"


section \<open>Notions of the specification\<close>

text \<open>The words of the specification that the statements below use: which nodes are a
  diff and which a plain code block, when an original snapshot is present, which modes
  retain the original code, and which inputs a mode requires.\<close>

fun is_diff :: "node \<Rightarrow> bool" where
  "is_diff (CodeComparison original updated lang) = True"
| "is_diff n = False"

fun is_plain_code :: "node \<Rightarrow> bool" where
  "is_plain_code (CodeBlock lang body) = True"
| "is_plain_code n = False"

definition snapshot_present :: "string option \<Rightarrow> string option \<Rightarrow> bool" where
  "snapshot_present originalCode lang = (prop_truthy originalCode \<and> prop_truthy lang)"

definition has_fence :: "string \<Rightarrow> bool" where
  "has_fence s = sublist fence s"

definition unterminated :: "string \<Rightarrow> string \<Rightarrow> bool" where
  \<comment> \<open>in the input \<open>pre @ fence @ t\<close> the fence after \<open>pre\<close> is the first one, and no fence
     follows it\<close>
  "unterminated pre t = (\<not> has_fence (pre @ ''``'') \<and> \<not> has_fence t)"

text \<open>A closed block is a text without a fence, an opening fence, a body and the first
  fence after the body. The pair \<open>(x, body)\<close> stands for the text and the body.\<close>

definition block :: "string \<times> string \<Rightarrow> string" where
  "block sb = fst sb @ fence @ snd sb @ fence"

definition well_closed :: "(string \<times> string) list \<Rightarrow> bool" where
  "well_closed segs =
     list_all (\<lambda>sb. \<not> has_fence (fst sb @ ''``'') \<and> \<not> has_fence (snd sb @ ''``'')) segs"

definition blocks_parts :: "(string \<times> string) list \<Rightarrow> string list" where
  "blocks_parts segs =
     concat (map (\<lambda>sb. filter truthy [fst sb, fence @ snd sb @ fence]) segs)"

definition drop_newline :: "string \<Rightarrow> string" where
  \<comment> \<open>one newline at the head, when there is one\<close>
  "drop_newline s = (case s of [] \<Rightarrow> [] | c # cs \<Rightarrow> if is_newline c then cs else c # cs)"

definition drop_closing_fence :: "string \<Rightarrow> string" where
  \<comment> \<open>a fence at the very end, when there is one\<close>
  "drop_closing_fence s = (if suffix fence s then take (length s - length fence) s else s)"

fun retainsOriginalCode :: "AiMode \<Rightarrow> bool" where
  "retainsOriginalCode ASSIST = True"
| "retainsOriginalCode DEBUG = True"
| "retainsOriginalCode REFACTOR = True"
| "retainsOriginalCode GENERATE = False"
| "retainsOriginalCode REVIEW = False"
| "retainsOriginalCode GENERATE_DOCS = False"
| "retainsOriginalCode GENERATE_TESTS = False"
| "retainsOriginalCode ANALYZE_REPO = False"

fun required_missing :: "AiMode \<Rightarrow> string \<Rightarrow> string \<Rightarrow> bool" where
  \<comment> \<open>the table of required inputs, for the code input and the user input\<close>
  "required_missing ASSIST c u = (c = [] \<or> u = [])"
| "required_missing GENERATE c u = (u = [])"
| "required_missing DEBUG c u = (c = [])"
| "required_missing REFACTOR c u = (c = [])"
| "required_missing REVIEW c u = (c = [])"
| "required_missing GENERATE_DOCS c u = (c = [])"
| "required_missing GENERATE_TESTS c u = (c = [])"
| "required_missing ANALYZE_REPO c u = (match_groups github_rx u = None)"

fun mode_messages :: "AiMode \<Rightarrow> string list" where
  \<comment> \<open>the validation messages of each mode, as the source words them\<close>
  "mode_messages ASSIST = [''Please provide both code and a problem description.'']"
| "mode_messages GENERATE = [''Please provide a description for the code to generate.'']"
| "mode_messages DEBUG = [''Please provide code to debug.'']"
| "mode_messages REFACTOR = [''Please provide code to refactor.'']"
| "mode_messages REVIEW = [''Please provide code to review.'']"
| "mode_messages GENERATE_DOCS = [''Please provide code to generate documentation for.'']"
| "mode_messages GENERATE_TESTS = [''Please provide code to generate tests for.'']"
| "mode_messages ANALYZE_REPO =
     [''Please provide a public GitHub repository URL.'',
      ''Invalid GitHub repository URL. Use format: https://github.com/owner/repo'']"

fun capture_free :: "rx \<Rightarrow> bool" where
  "capture_free (Seq a b) = (capture_free a \<and> capture_free b)"
| "capture_free (Opt a) = capture_free a"
| "capture_free (Cap a) = False"
| "capture_free r = True"


text \<open>The three ways in which the \<^verbatim>\<open>switch\<close> ends for a state \<open>st\<close>: rejected with a
  message, thrown, or left with a result and the original code \<open>oc\<close>.\<close>

definition ends_well :: "assistant \<Rightarrow> string \<Rightarrow> branch \<Rightarrow> bool" where
  "ends_well st oc b =
     ((\<exists>msg calls. b = reject msg st calls) \<or> (\<exists>msg calls. b = Thrown msg calls) \<or>
      (\<exists>r calls. b = Broke oc r calls))"

section \<open>Facts about the matcher\<close>

text \<open>Every state a pattern reaches reads a suffix of the input, a pattern without a
  group leaves the captures alone, and the split loop loses nothing when the captures
  of a match spell the matched text.\<close>

lemma star_greedy_states:
  "st \<in> set (star_greedy P caps s) \<Longrightarrow> suffix (fst st) s \<and> snd st = caps"
  by (induction s) (auto simp: suffix_Cons split: if_splits)

lemma star_lazy_states:
  "st \<in> set (star_lazy P caps s) \<Longrightarrow> suffix (fst st) s \<and> snd st = caps"
  by (induction s) (auto simp: suffix_Cons split: if_splits)

lemma rx_run_suffix:
  "st' \<in> set (rx_run r n st) \<Longrightarrow> suffix (fst st') (fst st)"
proof (induction r arbitrary: st st')
  case (Cls P)
  then show ?case by (cases "fst st") (auto simp: suffix_Cons split: if_splits)
next
  case (Lit l)
  then show ?case by (auto simp: suffix_drop split: if_splits)
next
  case (Seq a b)
  then obtain m where "m \<in> set (rx_run a n st)" "st' \<in> set (rx_run b n m)" by auto
  then show ?case using Seq.IH suffix_order.trans by blast
next
  case (StarG P)
  then show ?case using star_greedy_states by auto
next
  case (StarL P)
  then show ?case using star_lazy_states by auto
qed (auto split: if_splits)

lemma rx_run_captures:
  "capture_free r \<Longrightarrow> st' \<in> set (rx_run r n st) \<Longrightarrow> snd st' = snd st"
proof (induction r arbitrary: st st')
  case (Seq a b)
  then obtain m where "m \<in> set (rx_run a n st)" "st' \<in> set (rx_run b n m)" by auto
  then show ?case using Seq by (metis capture_free.simps(1))
next
  case (StarG P)
  then show ?case using star_greedy_states by auto
next
  case (StarL P)
  then show ?case using star_lazy_states by auto
qed (auto split: list.splits if_splits)

lemma rx_match_at_Cap:
  assumes "capture_free a" and "rx_match_at (Cap a) n s = Some (k, caps)"
  shows "k \<le> length s \<and> caps = [take k s]"
proof -
  from assms(2) obtain st rest where run: "rx_run a n (s, []) = st # rest"
    and k: "k = length s - length (fst st)"
    and c: "caps = snd st @ [take (length s - length (fst st)) s]"
    by (auto simp: rx_match_at_def split: list.splits)
  have "st \<in> set (rx_run a n (s, []))" using run by simp
  then have "snd st = []" using rx_run_captures[OF assms(1)] by fastforce
  then show ?thesis using k c by simp
qed

lemma split_loop_concat:
  assumes "\<And>s k caps. rx_match_at r n s = Some (k, caps) \<Longrightarrow> concat caps = take k s"
  shows "concat (split_loop r n pend s) = pend @ s"
  using assms
proof (induction r n pend s rule: split_loop.induct)
  case (1 r n pend)
  then show ?case by simp
next
  case (2 r n pend c cs)
  note caps_of = "2.prems"
  show ?case
  proof (cases "rx_match_at r n (c # cs)")
    case None
    then show ?thesis using 2 by simp
  next
    case (Some z)
    obtain k caps where z: "z = (k, caps)" by (cases z)
    have caps: "concat caps = take k (c # cs)"
      by (rule caps_of[OF Some[unfolded z]])
    show ?thesis
    proof (cases "k = 0 \<and> pend = []")
      case True
      then show ?thesis using "2.IH"(2)[OF Some z[symmetric]] caps_of Some z by simp
    next
      case False
      then have "split_loop r n pend (c # cs) =
          pend # caps @ split_loop r n [] (drop k (c # cs))"
        using Some z by auto
      then have "concat (split_loop r n pend (c # cs)) =
          pend @ concat caps @ concat (split_loop r n [] (drop k (c # cs)))"
        by simp
      also have "concat (split_loop r n [] (drop k (c # cs))) = drop k (c # cs)"
        using "2.IH"(3)[OF Some z[symmetric] False] caps_of by simp
      finally show ?thesis using caps by (simp del: drop_Suc_Cons take_Suc_Cons)
    qed
  qed
qed

lemma concat_filter_truthy: "concat (filter truthy xs) = concat xs"
  by (induction xs) (auto simp: truthy_def)

lemma fence_rx_captures:
  assumes "rx_match_at fence_rx n s = Some (k, caps)"
  shows "concat caps = take k s"
proof -
  have "capture_free (Seq (Lit fence)
         (Seq (Opt (Seq (StarG is_alpha) (Cls is_newline)))
         (Seq (StarL any_char) (Lit fence))))"
    by simp
  from rx_match_at_Cap[OF this assms[unfolded fence_rx_def]] show ?thesis
    by simp
qed

lemma star_greedy_first:
  "\<exists>rest. star_greedy P caps s = (dropWhile P s, caps) # rest"
  by (induction s) auto

lemma rx_match_at_first:
  "rx_run r n (s, []) = st # rest \<Longrightarrow>
   rx_match_at r n s = Some (length s - length (fst st), snd st)"
  by (simp add: rx_match_at_def)

lemma drop_to_suffix: "suffix d s \<Longrightarrow> drop (length s - length d) s = d"
  by (auto simp: suffix_def)

lemma drop_newline_suffix: "suffix (drop_newline s) s"
  by (cases s) (auto simp: drop_newline_def suffix_Cons)

lemma opt_newline_first:
  "\<exists>rest. rx_run (Opt (Cls is_newline)) n (s, caps) = (drop_newline s, caps) # rest"
  by (cases s) (auto simp: drop_newline_def)

lemma open_fence_run:
  assumes "n = length (fence @ t)"
  shows "\<exists>rest. rx_run open_fence_rx n (fence @ t, []) =
           (drop_newline (dropWhile is_alpha t), []) # rest"
proof -
  obtain r1 where r1: "star_greedy is_alpha [] t = (dropWhile is_alpha t, []) # r1"
    using star_greedy_first by blast
  obtain r2 where r2: "rx_run (Opt (Cls is_newline)) n (dropWhile is_alpha t, []) =
      (drop_newline (dropWhile is_alpha t), []) # r2"
    using opt_newline_first by blast
  show ?thesis
    using assms r1 r2 by (simp add: open_fence_rx_def)
qed

lemma strip_open:
  assumes "isCodeBlock part"
  shows "replace_first open_fence_rx part = drop_newline (dropWhile is_alpha (drop 3 part))"
proof -
  from assms obtain t where part: "part = fence @ t"
    by (auto simp: isCodeBlock_def startsWith_def prefix_def)
  let ?d = "drop_newline (dropWhile is_alpha t)"
  obtain rest where run: "rx_run open_fence_rx (length part) (part, []) = (?d, []) # rest"
    using open_fence_run[of "length part" t] part by auto
  have m: "rx_match_at open_fence_rx (length part) part = Some (length part - length ?d, [])"
    using rx_match_at_first[OF run] by simp
  have ne: "part \<noteq> []" using part by (simp add: fence_def)
  then obtain c cs where cs: "part = c # cs" by (cases part) auto
  have "rx_exec open_fence_rx part = Some ([], length part - length ?d, [])"
    using m unfolding rx_exec_def by (subst cs, subst (asm) (3) cs) simp
  moreover have "suffix ?d part"
    unfolding part using drop_newline_suffix suffix_dropWhile
    by (meson suffix_appendI suffix_order.trans)
  ultimately show ?thesis
    using drop_to_suffix[of ?d part] part by (simp add: replace_first_def fence_def)
qed

lemma close_fence_match:
  "rx_match_at close_fence_rx n s = (if s = fence then Some (3, []) else None)"
  by (auto simp: rx_match_at_def close_fence_rx_def fence_def prefix_def)

lemma close_fence_search:
  "rx_search close_fence_rx n pre s =
     (if suffix fence s then Some (pre @ take (length s - 3) s, 3, []) else None)"
proof (induction s arbitrary: pre)
  case Nil
  then show ?case by (simp add: close_fence_match fence_def)
next
  case (Cons c cs)
  show ?case
  proof (cases "c # cs = fence")
    case True
    then show ?thesis by (simp add: close_fence_match fence_def)
  next
    case False
    then have "suffix fence (c # cs) = suffix fence cs"
      by (auto simp: suffix_Cons)
    moreover have "suffix fence cs \<Longrightarrow> length cs \<ge> 3"
      using suffix_length_le[of fence cs] by (simp add: fence_def)
    moreover have "length cs \<ge> 3 \<Longrightarrow>
        take (length (c # cs) - 3) (c # cs) = c # take (length cs - 3) cs"
    proof -
      assume "length cs \<ge> 3"
      then have "length (c # cs) - 3 = Suc (length cs - 3)" by simp
      then show ?thesis by (simp only: take_Suc_Cons)
    qed
    ultimately show ?thesis using False Cons[of "pre @ [c]"]
      by (auto simp: close_fence_match simp del: take_Suc_Cons)
  qed
qed

lemma strip_close: "replace_first close_fence_rx s = drop_closing_fence s"
proof (cases "suffix fence s")
  case False
  then show ?thesis
    by (simp add: replace_first_def rx_exec_def close_fence_search drop_closing_fence_def)
next
  case True
  then have "length s \<ge> 3" using suffix_length_le[of fence s] by (simp add: fence_def)
  then show ?thesis using True
    by (simp add: replace_first_def rx_exec_def close_fence_search drop_closing_fence_def
        fence_def numeral_3_eq_3)
qed

lemma lang_run:
  assumes "n = length (fence @ t)"
  shows "\<exists>rest. rx_run lang_rx n (fence @ t, []) =
           (dropWhile is_alpha t, [takeWhile is_alpha t]) # rest"
proof -
  obtain r1 where r1: "star_greedy is_alpha [] t = (dropWhile is_alpha t, []) # r1"
    using star_greedy_first by blast
  have "take (length t - length (dropWhile is_alpha t)) t = takeWhile is_alpha t"
    by (metis add_diff_cancel_right' append_eq_conv_conj length_append takeWhile_dropWhile_id)
  then show ?thesis using assms r1 by (simp add: lang_rx_def)
qed

lemma code_lang_eq:
  assumes "isCodeBlock part"
  shows "code_lang part = takeWhile is_alpha (drop 3 part)"
proof -
  from assms obtain t where part: "part = fence @ t"
    by (auto simp: isCodeBlock_def startsWith_def prefix_def)
  obtain rest where run: "rx_run lang_rx (length part) (part, []) =
      (dropWhile is_alpha t, [takeWhile is_alpha t]) # rest"
    using lang_run[of "length part" t] part by auto
  have m: "rx_match_at lang_rx (length part) part =
      Some (length part - length (dropWhile is_alpha t), [takeWhile is_alpha t])"
    using rx_match_at_first[OF run] by simp
  have ne: "part \<noteq> []" using part by (simp add: fence_def)
  then obtain c cs where cs: "part = c # cs" by (cases part) auto
  have "rx_exec lang_rx part =
      Some ([], length part - length (dropWhile is_alpha t), [takeWhile is_alpha t])"
    using m unfolding rx_exec_def by (subst cs, subst (asm) (3) cs) simp
  then show ?thesis using part by (simp add: code_lang_def match_groups_def fence_def)
qed

lemma code_body_eq:
  "isCodeBlock part \<Longrightarrow>
   code_body part =
     trim (drop_closing_fence (drop_newline (dropWhile is_alpha (drop 3 part))))"
  by (simp add: code_body_def strip_open strip_close)

lemma trim_no_outer_space:
  "trim s = [] \<or> (\<not> is_space (hd (trim s)) \<and> \<not> is_space (last (trim s)))"
proof (cases "trim s = []")
  case True
  then show ?thesis by simp
next
  case False
  let ?a = "dropWhile is_space s"
  let ?b = "dropWhile is_space (rev ?a)"
  have b: "?b \<noteq> []" using False by (simp add: trim_def)
  then have "\<not> is_space (hd ?b)" by (rule hd_dropWhile)
  then have l: "\<not> is_space (last (trim s))" using b by (simp add: trim_def last_rev)
  have a: "?a \<noteq> []"
  proof
    assume "?a = []"
    then have "?b = []" by (metis dropWhile.simps(1) rev.simps(1))
    with b show False by simp
  qed
  from a have ha: "\<not> is_space (hd ?a)" by (rule hd_dropWhile)
  have "last ?b = last (rev ?a)" using b 
    by (metis append_Nil2 last_appendR takeWhile_dropWhile_id)
  then have "hd (trim s) = hd ?a" using b a by (simp add: trim_def hd_rev last_rev)
  then show ?thesis using ha l by simp
qed

lemma has_fence_suffix: "suffix u s \<Longrightarrow> has_fence u \<Longrightarrow> has_fence s"
  unfolding has_fence_def
  by (meson sublist_order.order.trans suffix_imp_sublist)

lemma lazy_then_fence_fails:
  "\<not> has_fence t \<Longrightarrow> rx_run (Seq (StarL any_char) (Lit fence)) n (t, caps) = []"
proof (induction t)
  case Nil
  then show ?case by (simp add: fence_def)
next
  case (Cons c cs)
  have "\<not> has_fence cs" using Cons.prems has_fence_suffix[of cs "c # cs"]
    by (auto simp: suffix_Cons)
  moreover have "\<not> prefix fence (c # cs)" using Cons.prems by (auto simp: has_fence_def)
  ultimately show ?case using Cons.IH by (simp add: any_char_def)
qed

lemma concat_map_Nil: "(\<And>x. x \<in> set xs \<Longrightarrow> f x = []) \<Longrightarrow> concat (map f xs) = []"
  by (induction xs) auto

lemma fence_rx_no_match:
  assumes "prefix fence s \<Longrightarrow> \<not> has_fence (drop 3 s)"
  shows "rx_match_at fence_rx n s = None"
proof (cases "prefix fence s")
  case False
  then show ?thesis by (simp add: rx_match_at_def fence_rx_def)
next
  case True
  then obtain t where s: "s = fence @ t" by (auto simp: prefix_def)
  have nf: "\<not> has_fence t" using assms True s by (simp add: fence_def)
  let ?g = "Opt (Seq (StarG is_alpha) (Cls is_newline))"
  have "rx_run (Seq (StarL any_char) (Lit fence)) n st = []"
    if "st \<in> set (rx_run ?g n (t, []))" for st
  proof -
    have "suffix (fst st) t" using rx_run_suffix[OF that] by simp
    then have "\<not> has_fence (fst st)" using nf has_fence_suffix by blast
    then show ?thesis using lazy_then_fence_fails[of "fst st" n "snd st"] by simp
  qed
  then have "concat (map (rx_run (Seq (StarL any_char) (Lit fence)) n) (rx_run ?g n (t, []))) = []"
    by (rule concat_map_Nil)
  then have inner: "rx_run (Seq ?g (Seq (StarL any_char) (Lit fence))) n (t, []) = []"
    by (simp only: rx_run.simps(3))
  have "rx_run (Lit fence) n (s, []) = [(t, [])]" using s by simp
  then have "rx_run (Seq (Lit fence) (Seq ?g (Seq (StarL any_char) (Lit fence)))) n (s, []) = []"
    using inner by (simp only: rx_run.simps(3) list.map concat.simps append_Nil2)
  then have "rx_run fence_rx n (s, []) = []"
    by (simp only: fence_rx_def rx_run.simps(7) list.map)
  then show ?thesis by (simp add: rx_match_at_def)
qed

lemma split_loop_no_match:
  "(\<And>u. suffix u s \<Longrightarrow> rx_match_at r n u = None) \<Longrightarrow> split_loop r n pend s = [pend @ s]"
proof (induction s arbitrary: pend)
  case Nil
  then show ?case by simp
next
  case (Cons c cs)
  have "rx_match_at r n (c # cs) = None" using Cons.prems by simp
  moreover have "split_loop r n (pend @ [c]) cs = [(pend @ [c]) @ cs]"
    using Cons.prems by (intro Cons.IH) (simp add: suffix_Cons)
  ultimately show ?case by simp
qed

lemma early_fence:
  assumes "pre' \<noteq> []" "suffix pre' pre" "prefix fence (pre' @ fence @ t)"
  shows "has_fence (pre @ ''``'')"
proof -
  obtain a where pre: "pre = a @ pre'" using assms(2) by (auto simp: suffix_def)
  have len: "length pre' \<ge> 1" using assms(1) by (cases pre') auto
  obtain zs where "pre' @ fence @ t = fence @ zs" using assms(3) by (auto simp: prefix_def)
  then have "take 3 (pre' @ fence @ t) = take 3 (fence @ zs)" by simp
  also have "\<dots> = fence" by (simp add: fence_def)
  finally have "take 3 (pre' @ fence @ t) = fence" .
  moreover have "take 3 (pre' @ fence @ t) = take 3 (pre' @ ''``'')"
    using len by (cases pre'; cases "tl pre'"; cases "tl (tl pre')") (auto simp: fence_def)
  ultimately have "prefix fence (pre' @ ''``'')"
    by (metis take_is_prefix)
  then show ?thesis unfolding has_fence_def pre
    by (metis append.assoc prefix_imp_sublist sublist_append_leftI sublist_order.order.trans)
qed

lemma unterminated_no_match:
  assumes "unterminated pre t" and "suffix u (pre @ fence @ t)"
  shows "rx_match_at fence_rx n u = None"
proof (rule fence_rx_no_match)
  assume pf: "prefix fence u"
  from assms(2) consider
    (a) pre' where "pre' \<noteq> []" "suffix pre' pre" "u = pre' @ fence @ t"
    | (b) "suffix u (fence @ t)"
    by (auto simp: suffix_append)
  then show "\<not> has_fence (drop 3 u)"
  proof cases
    case a
    then show ?thesis using early_fence[of pre' pre t] pf assms(1)
      by (simp add: unterminated_def)
  next
    case b
    then obtain k where "u = drop k (fence @ t)" by (metis suffix_def append_eq_conv_conj)
    then have "drop 3 u = drop k (drop 3 (fence @ t))" by (simp only: drop_drop add.commute)
    also have "drop 3 (fence @ t) = t" by (simp add: fence_def)
    finally have "drop 3 u = drop k t" .
    then have "suffix (drop 3 u) t" by (simp add: suffix_drop)
    then show ?thesis using assms(1) has_fence_suffix by (auto simp: unterminated_def)
  qed
qed

lemma unterminated_parts:
  assumes "unterminated pre t"
  shows "parts (pre @ fence @ t) = [pre @ fence @ t]"
proof -
  have "split_loop fence_rx (length (pre @ fence @ t)) [] (pre @ fence @ t) = [[] @ pre @ fence @ t]"
    by (rule split_loop_no_match) (rule unterminated_no_match[OF assms])
  then show ?thesis by (simp add: parts_def split_rx_def fence_def truthy_def)
qed

lemma unterminated_not_code:
  assumes "unterminated pre t" "pre \<noteq> []"
  shows "\<not> isCodeBlock (pre @ fence @ t)"
  using early_fence[of pre pre t] assms
  by (auto simp: isCodeBlock_def startsWith_def unterminated_def)

lemma unterminated_body:
  assumes "\<not> has_fence t"
  shows "code_body (fence @ t) = trim (drop_newline (dropWhile is_alpha t))"
proof -
  let ?d = "drop_newline (dropWhile is_alpha t)"
  have "suffix ?d t"
    using drop_newline_suffix suffix_dropWhile suffix_order.trans by blast
  then have "\<not> has_fence ?d" using assms has_fence_suffix by blast
  then have "\<not> suffix fence ?d" by (auto simp: has_fence_def)
  then have "drop_closing_fence ?d = ?d" by (simp add: drop_closing_fence_def)
  moreover have "isCodeBlock (fence @ t)" by (simp add: isCodeBlock_def startsWith_def)
  ultimately show ?thesis using code_body_eq[of "fence @ t"] by (simp add: fence_def)
qed

lemma not_alpha_newline: "\<not> is_alpha (CHR 0x0A)"
  by (simp add: is_alpha_def)

text \<open>The pattern of the split matches a closed block from its opening fence to the
  first fence after it, and nothing before the block; every input is a run of closed
  blocks followed by a rest that has no fence or whose first fence is unterminated.\<close>

lemma first_fence_not_earlier:
  assumes "\<not> has_fence (u @ ''``'')" "u \<noteq> []"
  shows "\<not> prefix fence (u @ fence @ r)"
  using early_fence[of u u r] assms by auto

lemma lazy_finds_fence:
  "\<not> has_fence (u @ ''``'') \<Longrightarrow>
   \<exists>rest. rx_run (Seq (StarL any_char) (Lit fence)) n (u @ fence @ r, caps) = (r, caps) # rest"
proof (induction u)
  case Nil
  obtain c cs where f: "fence @ r = c # cs" by (cases "fence @ r") (auto simp: fence_def)
  have "prefix fence (c # cs)" using f by (metis prefixI)
  moreover have "drop (length fence) (c # cs) = r" using f by (metis append_eq_conv_conj)
  ultimately show ?case using f by (simp del: drop_Suc_Cons)
next
  case (Cons c u)
  have "\<not> has_fence (u @ ''``'')"
    using Cons.prems has_fence_suffix[of "u @ ''``''" "(c # u) @ ''``''"]
    by (auto simp: suffix_Cons)
  then obtain rest where ih:
    "rx_run (Seq (StarL any_char) (Lit fence)) n (u @ fence @ r, caps) = (r, caps) # rest"
    using Cons.IH by blast
  have np: "\<not> prefix fence (c # u @ fence @ r)"
    using first_fence_not_earlier[OF Cons.prems, of r] by simp
  have "any_char c" by (simp add: any_char_def)
  then show ?case using ih np by simp
qed

lemma star_greedy_within:
  assumes "z = [] \<or> \<not> P (hd z)"
  shows "st \<in> set (star_greedy P caps (b @ z)) \<Longrightarrow>
         \<exists>k \<le> length b. fst st = drop k b @ z \<and> snd st = caps"
proof (induction b)
  case Nil
  then show ?case using assms by (cases z) (auto split: if_splits)
next
  case (Cons c b)
  from Cons.prems consider "st = (c # b @ z, caps)"
    | "P c" "st \<in> set (star_greedy P caps (b @ z))"
    by (auto split: if_splits)
  then show ?case
  proof cases
    case 1
    then show ?thesis by (intro exI[of _ 0]) simp
  next
    case 2
    then obtain k where "k \<le> length b" "fst st = drop k b @ z" "snd st = caps"
      using Cons.IH by blast
    then show ?thesis by (intro exI[of _ "Suc k"]) simp
  qed
qed

lemma group_states:
  assumes "st \<in> set (rx_run (Opt (Seq (StarG is_alpha) (Cls is_newline))) n
                        (body @ fence @ r, caps))"
  shows "\<exists>k \<le> length body. fst st = drop k body @ fence @ r \<and> snd st = caps"
proof -
  have z: "fence @ r = [] \<or> \<not> is_alpha (hd (fence @ r))"
    by (simp add: fence_def is_alpha_def)
  from assms consider "st = (body @ fence @ r, caps)"
    | m where "m \<in> set (star_greedy is_alpha caps (body @ fence @ r))"
        "st \<in> set (rx_run (Cls is_newline) n m)"
    by auto
  then show ?thesis
  proof cases
    case 1
    then show ?thesis by (intro exI[of _ 0]) simp
  next
    case 2
    then obtain k where k: "k \<le> length body" "fst m = drop k body @ fence @ r" "snd m = caps"
      using star_greedy_within[where z = "fence @ r" and P = is_alpha and b = body, OF z] by blast
    show ?thesis
    proof (cases "drop k body")
      case Nil
      then have "fst m = fence @ r" using k by simp
      then have "rx_run (Cls is_newline) n m = []"
        by (simp add: fence_def is_newline_def)
      then show ?thesis using 2 by simp
    next
      case (Cons c d)
      then have "fst m = c # d @ fence @ r" using k by simp
      then have st: "st = (d @ fence @ r, caps)" using 2 k by (auto split: if_splits)
      have "d = drop (Suc k) body" using Cons by (metis drop_Suc tl_drop list.sel(3))
      moreover have "Suc k \<le> length body" using Cons k
        by (metis Suc_leI drop_eq_Nil2 le_neq_implies_less list.distinct(1) not_less)
      ultimately show ?thesis using st by (intro exI[of _ "Suc k"]) simp
    qed
  qed
qed

lemma hd_concat_map:
  "xs = x # xs' \<Longrightarrow> f x = y # ys \<Longrightarrow> \<exists>zs. concat (map f xs) = y # zs"
  by simp

lemma lit_fence_run: "rx_run (Lit fence) n (fence @ s, caps) = [(s, caps)]"
  by simp

lemma seq_run: "rx_run (Seq a b) n st = concat (map (rx_run b n) (rx_run a n st))"
  by simp

lemma cap_run_first:
  "rx_run a n (s, caps) = (r, caps') # zs \<Longrightarrow>
   \<exists>ws. rx_run (Cap a) n (s, caps) = (r, caps' @ [take (length s - length r) s]) # ws"
  by simp

lemma tail_after_group:
  assumes "\<not> has_fence (body @ ''``'')"
  shows "\<exists>zs. rx_run (Seq (Opt (Seq (StarG is_alpha) (Cls is_newline)))
                     (Seq (StarL any_char) (Lit fence))) n (body @ fence @ r, []) = (r, []) # zs"
proof -
  let ?g = "Opt (Seq (StarG is_alpha) (Cls is_newline))"
  let ?t = "Seq (StarL any_char) (Lit fence)"
  obtain s0 S where S: "rx_run ?g n (body @ fence @ r, []) = s0 # S"
    by (cases "rx_run ?g n (body @ fence @ r, [])") auto
  then have "s0 \<in> set (rx_run ?g n (body @ fence @ r, []))" by simp
  then obtain k where k: "k \<le> length body" "fst s0 = drop k body @ fence @ r" "snd s0 = []"
    using group_states by blast
  have s0: "s0 = (drop k body @ fence @ r, [])" using k by (cases s0) simp
  have "suffix (drop k body @ ''``'') (body @ ''``'')" by (simp add: suffix_drop)
  then have "\<not> has_fence (drop k body @ ''``'')" using assms has_fence_suffix by blast
  then obtain rest where "rx_run ?t n (drop k body @ fence @ r, []) = (r, []) # rest"
    using lazy_finds_fence by blast
  then have "rx_run ?t n s0 = (r, []) # rest" unfolding s0 .
  from hd_concat_map[where f = "rx_run ?t n", OF S this] show ?thesis
    by (simp only: seq_run)
qed


lemma fence_rx_match:
  assumes "\<not> has_fence (body @ ''``'')"
  shows "rx_match_at fence_rx n (fence @ body @ fence @ r) =
           Some (length (fence @ body @ fence), [fence @ body @ fence])"
proof -
  let ?g = "Opt (Seq (StarG is_alpha) (Cls is_newline))"
  let ?t = "Seq (StarL any_char) (Lit fence)"
  let ?s = "fence @ body @ fence @ r"
  obtain zs where inner: "rx_run (Seq ?g ?t) n (body @ fence @ r, []) = (r, []) # zs"
    using tail_after_group[OF assms] by blast
  have "rx_run (Seq (Lit fence) (Seq ?g ?t)) n (?s, []) = (r, []) # zs"
    by (simp only: seq_run[of "Lit fence"] lit_fence_run list.map concat.simps append_Nil2 inner)
  from cap_run_first[OF this] obtain ws where
    "rx_run fence_rx n (?s, []) = (r, [] @ [take (length ?s - length r) ?s]) # ws"
    unfolding fence_rx_def by blast
  from rx_match_at_first[OF this]
  have m: "rx_match_at fence_rx n ?s =
      Some (length ?s - length r, [take (length ?s - length r) ?s])"
    by (simp only: fst_conv snd_conv append_Nil)
  have l: "length ?s - length r = length (fence @ body @ fence)" by simp
  have "take (length (fence @ body @ fence)) ((fence @ body @ fence) @ r) = fence @ body @ fence"
    by (rule append_eq_conv_conj[THEN iffD1, OF refl, THEN conjunct1, symmetric])
  then have t: "take (length (fence @ body @ fence)) ?s = fence @ body @ fence"
    by (simp only: append_assoc)
  show ?thesis unfolding m l t ..
qed

lemma split_loop_step_none:
  "rx_match_at r n (c # cs) = None \<Longrightarrow>
   split_loop r n pend (c # cs) = split_loop r n (pend @ [c]) cs"
  by simp

lemma split_loop_step_some:
  "rx_match_at r n (c # cs) = Some (k, caps) \<Longrightarrow> k \<noteq> 0 \<Longrightarrow>
   split_loop r n pend (c # cs) = pend # caps @ split_loop r n [] (drop k (c # cs))"
  by simp

lemma split_loop_block:
  assumes "\<not> has_fence (body @ ''``'')"
  shows "\<not> has_fence (x @ ''``'') \<Longrightarrow>
         split_loop fence_rx n pend (x @ fence @ body @ fence @ rest) =
           (pend @ x) # (fence @ body @ fence) # split_loop fence_rx n [] rest"
proof (induction x arbitrary: pend)
  case Nil
  let ?b = "fence @ body @ fence"
  obtain c cs where f: "fence @ body @ fence @ rest = c # cs"
    by (cases "fence @ body @ fence @ rest") (auto simp: fence_def)
  have m: "rx_match_at fence_rx n (c # cs) = Some (length ?b, [?b])"
    using fence_rx_match[OF assms, of n rest] unfolding f .
  have k: "length ?b \<noteq> 0" by (simp add: fence_def)
  have "drop (length ?b) (?b @ rest) = rest" by (rule append_eq_conv_conj[THEN iffD1, OF refl, THEN conjunct2, symmetric])
  then have d: "drop (length ?b) (c # cs) = rest" using f by (simp only: append_assoc)
  have "split_loop fence_rx n pend (c # cs) = pend # [?b] @ split_loop fence_rx n [] rest"
    using split_loop_step_some[OF m k, of pend] unfolding d .
  then show ?case unfolding f[symmetric] by (simp only: append_Nil append_Nil2 append_Cons)
next
  case (Cons c x)
  have nf: "\<not> has_fence (x @ ''``'')"
    using Cons.prems has_fence_suffix[of "x @ ''``''" "(c # x) @ ''``''"]
    by (auto simp: suffix_Cons)
  have "\<not> prefix fence ((c # x) @ fence @ body @ fence @ rest)"
    using first_fence_not_earlier[OF Cons.prems, of "body @ fence @ rest"] by simp
  then have "rx_match_at fence_rx n (c # x @ fence @ body @ fence @ rest) = None"
    by (intro fence_rx_no_match) simp
  from split_loop_step_none[OF this, of pend]
  show ?case using Cons.IH[OF nf, of "pend @ [c]"] by simp
qed

lemma split_loop_blocks:
  "well_closed segs \<Longrightarrow>
   split_loop fence_rx n [] (concat (map block segs) @ tl') =
     concat (map (\<lambda>sb. [fst sb, fence @ snd sb @ fence]) segs) @ split_loop fence_rx n [] tl'"
proof (induction segs)
  case Nil
  then show ?case by simp
next
  case (Cons sb segs)
  have a: "\<not> has_fence (fst sb @ ''``'')" "\<not> has_fence (snd sb @ ''``'')"
    and w: "well_closed segs"
    using Cons.prems by (simp_all add: well_closed_def)
  have e: "concat (map block (sb # segs)) @ tl' =
      fst sb @ fence @ snd sb @ fence @ concat (map block segs) @ tl'"
    by (simp add: block_def)
  have "split_loop fence_rx n [] (fst sb @ fence @ snd sb @ fence @ concat (map block segs) @ tl') =
      ([] @ fst sb) # (fence @ snd sb @ fence) #
        split_loop fence_rx n [] (concat (map block segs) @ tl')"
    by (rule split_loop_block[OF a(2) a(1)])
  then have "split_loop fence_rx n [] (concat (map block (sb # segs)) @ tl') =
      fst sb # (fence @ snd sb @ fence) #
        split_loop fence_rx n [] (concat (map block segs) @ tl')"
    unfolding e by (simp only: append_Nil)
  then show ?case unfolding Cons.IH[OF w] by simp
qed

lemma filter_blocks:
  "filter truthy (concat (map (\<lambda>sb. [fst sb, fence @ snd sb @ fence]) segs)) = blocks_parts segs"
  unfolding blocks_parts_def by (induction segs) simp_all

lemma closed_then_unterminated_parts:
  assumes "well_closed segs" "unterminated pre t"
  shows "parts (concat (map block segs) @ pre @ fence @ t) = blocks_parts segs @ [pre @ fence @ t]"
proof -
  let ?c = "concat (map block segs) @ pre @ fence @ t"
  have ne: "?c \<noteq> []" by (simp add: fence_def)
  have "split_loop fence_rx (length ?c) [] (pre @ fence @ t) = [[] @ pre @ fence @ t]"
    by (rule split_loop_no_match) (rule unterminated_no_match[OF assms(2)])
  then have "split_loop fence_rx (length ?c) [] ?c =
      concat (map (\<lambda>sb. [fst sb, fence @ snd sb @ fence]) segs) @ [pre @ fence @ t]"
    unfolding split_loop_blocks[OF assms(1), of "length ?c" "pre @ fence @ t"]
    by (simp only: append_Nil)
  moreover have "split_rx fence_rx ?c = split_loop fence_rx (length ?c) [] ?c"
    using ne by (simp only: split_rx_def if_False)
  ultimately have "parts ?c =
      filter truthy (concat (map (\<lambda>sb. [fst sb, fence @ snd sb @ fence]) segs) @ [pre @ fence @ t])"
    by (simp only: parts_def)
  moreover have "truthy (pre @ fence @ t)" by (simp add: truthy_def fence_def)
  ultimately show ?thesis
    by (simp only: filter_append filter_blocks filter.simps if_True)
qed

lemma first_fence:
  "has_fence s \<Longrightarrow> \<exists>x r. s = x @ fence @ r \<and> \<not> has_fence (x @ ''``'')"
proof (induction s)
  case Nil
  then show ?case by (simp add: has_fence_def fence_def)
next
  case (Cons c s)
  show ?case
  proof (cases "prefix fence (c # s)")
    case True
    then obtain r where "c # s = [] @ fence @ r" by (auto simp: prefix_def)
    moreover have "\<not> has_fence ([] @ ''``'')" by code_simp
    ultimately show ?thesis by blast
  next
    case False
    then have "has_fence s" using Cons.prems by (simp add: has_fence_def sublist_Cons_right)
    then obtain x r where xr: "s = x @ fence @ r" "\<not> has_fence (x @ ''``'')"
      using Cons.IH by blast
    have "prefix ((c # x) @ ''``'') ((c # x) @ fence @ r)" by (simp add: fence_def)
    then have "\<not> prefix fence ((c # x) @ ''``'')"
      using False xr(1) by (metis append_Cons prefix_order.trans)
    then have "\<not> has_fence ((c # x) @ ''``'')"
      using xr(2) by (simp add: has_fence_def sublist_Cons_right)
    moreover have "c # s = (c # x) @ fence @ r" using xr(1) by simp
    ultimately show ?thesis by blast
  qed
qed

lemma fence_decomposition:
  "\<exists>segs rest. well_closed segs \<and> s = concat (map block segs) @ rest \<and>
     (\<not> has_fence rest \<or> (\<exists>pre t. rest = pre @ fence @ t \<and> unterminated pre t))"
proof (induction s rule: length_induct)
  case (1 s)
  show ?case
  proof (cases "has_fence s")
    case False
    then have "well_closed [] \<and> s = concat (map block []) @ s \<and> \<not> has_fence s"
      by (simp add: well_closed_def)
    then show ?thesis by blast
  next
    case True
    then obtain x r where xr: "s = x @ fence @ r" "\<not> has_fence (x @ ''``'')"
      using first_fence by blast
    show ?thesis
    proof (cases "has_fence r")
      case False
      then have "well_closed [] \<and> s = concat (map block []) @ s \<and>
          s = x @ fence @ r \<and> unterminated x r"
        using xr by (simp add: well_closed_def unterminated_def)
      then show ?thesis by blast
    next
      case True
      then obtain body r' where br: "r = body @ fence @ r'" "\<not> has_fence (body @ ''``'')"
        using first_fence by blast
      have "length r' < length s" using xr(1) br(1) by (simp add: fence_def)
      then obtain segs rest where ih: "well_closed segs" "r' = concat (map block segs) @ rest"
        "\<not> has_fence rest \<or> (\<exists>pre t. rest = pre @ fence @ t \<and> unterminated pre t)"
        using 1 by blast
      have "well_closed ((x, body) # segs)" using ih(1) xr(2) br(2) by (simp add: well_closed_def)
      moreover have "s = concat (map block ((x, body) # segs)) @ rest"
        using xr(1) br(1) ih(2) by (simp add: block_def)
      ultimately show ?thesis using ih(3) by blast
    qed
  qed
qed


section \<open>Facts about the renderer\<close>

lemma render_parts_length: "length (render_parts oc l d ps) = length ps"
  by (induction ps arbitrary: d) auto

lemma render_parts_diff:
  "i < length ps \<Longrightarrow>
   is_diff (render_parts oc l d ps ! i) =
     (snapshot_present oc l \<and> \<not> d \<and> isCodeBlock (ps ! i) \<and>
      list_all (\<lambda>p. \<not> isCodeBlock p) (take i ps))"
proof (induction ps arbitrary: d i)
  case Nil
  then show ?case by simp
next
  case (Cons p ps)
  show ?case
  proof (cases i)
    case 0
    then show ?thesis by (auto simp: snapshot_present_def)
  next
    case (Suc j)
    then have "j < length ps" using Cons.prems by simp
    from Cons.IH[OF this] show ?thesis using Suc
      by (auto simp: snapshot_present_def)
  qed
qed

lemma render_parts_plain:
  "i < length ps \<Longrightarrow>
   is_plain_code (render_parts oc l d ps ! i) =
     (isCodeBlock (ps ! i) \<and> \<not> is_diff (render_parts oc l d ps ! i))"
proof (induction ps arbitrary: d i)
  case Nil
  then show ?case by simp
next
  case (Cons p ps)
  show ?case
  proof (cases i)
    case 0
    then show ?thesis by auto
  next
    case (Suc j)
    then have "j < length ps" using Cons.prems by simp
    from Cons.IH[OF this] show ?thesis using Suc by auto
  qed
qed

lemma render_parts_no_diff:
  "d \<or> \<not> snapshot_present oc l \<Longrightarrow> filter is_diff (render_parts oc l d ps) = []"
  by (induction ps) (auto simp: snapshot_present_def)

lemma render_parts_count:
  "length (filter is_diff (render_parts oc l d ps)) =
     (if snapshot_present oc l \<and> \<not> d then min 1 (length (filter isCodeBlock ps)) else 0)"
proof (induction ps)
  case Nil
  then show ?case by simp
next
  case (Cons p ps)
  show ?case
  proof (cases "snapshot_present oc l \<and> \<not> d")
    case False
    then have "filter is_diff (render_parts oc l d (p # ps)) = []"
      by (intro render_parts_no_diff) auto
    then show ?thesis using False by (auto simp del: render_parts.simps)
  next
    case True
    then show ?thesis
      using Cons render_parts_no_diff[of True oc l ps]
      by (auto simp: snapshot_present_def)
  qed
qed

lemma render_parts_append:
  "render_parts oc l d (ps @ qs) =
     render_parts oc l d ps @
     render_parts oc l (d \<or> (snapshot_present oc l \<and> list_ex isCodeBlock ps)) qs"
  by (induction ps arbitrary: d) (auto simp: snapshot_present_def)

lemma blocks_parts_code: "list_ex isCodeBlock (blocks_parts segs) = (segs \<noteq> [])"
proof (cases segs)
  case Nil
  then show ?thesis by (simp add: blocks_parts_def)
next
  case (Cons sb segs')
  have "isCodeBlock (fence @ snd sb @ fence)" by (simp add: isCodeBlock_def startsWith_def)
  moreover have "truthy (fence @ snd sb @ fence)" by (simp add: truthy_def fence_def)
  ultimately show ?thesis using Cons by (simp add: blocks_parts_def list_ex_iff)
qed



section \<open>The claims about the renderer\<close>

text \<open>
  Claim C1. With an original snapshot present (the original code and the language both
  given and not empty) the rendering marks as a diff exactly the first code part in
  document order; every later code part is a plain code block. Without a snapshot no
  part is a diff, however many code parts there are; with a snapshot and no code part
  nothing is a diff. So at most one part of a response is diff-paired. The rendering is
  a total function: it returns one node per part for every input.
\<close>

theorem diff_pairing:
  "length (MarkdownResponse content oc l) = length (parts content) \<and>
   (\<forall>i < length (parts content).
      is_diff (MarkdownResponse content oc l ! i) =
        (snapshot_present oc l \<and> isCodeBlock (parts content ! i) \<and>
         list_all (\<lambda>p. \<not> isCodeBlock p) (take i (parts content)))) \<and>
   (\<forall>i < length (parts content).
      is_plain_code (MarkdownResponse content oc l ! i) =
        (isCodeBlock (parts content ! i) \<and> \<not> is_diff (MarkdownResponse content oc l ! i))) \<and>
   length (filter is_diff (MarkdownResponse content oc l)) =
     (if snapshot_present oc l then min 1 (length (filter isCodeBlock (parts content))) else 0)"
  unfolding MarkdownResponse_def
  using render_parts_length render_parts_diff render_parts_plain render_parts_count
  by simp

theorem diff_pairing_witness:
  "(1::nat) < length (parts ''Fix:\<newline>```python\<newline>x = 2\<newline>```\<newline>and\<newline>```python\<newline>y\<newline>```'') \<and>
   is_diff (MarkdownResponse
     ''Fix:\<newline>```python\<newline>x = 2\<newline>```\<newline>and\<newline>```python\<newline>y\<newline>```''
     (Some ''x = 1'') (Some ''Python'') ! 1) \<and>
   length (filter is_diff (MarkdownResponse
     ''Fix:\<newline>```python\<newline>x = 2\<newline>```\<newline>and\<newline>```python\<newline>y\<newline>```''
     (Some ''x = 1'') (Some ''Python''))) = 1 \<and>
   length (filter is_diff (MarkdownResponse
     ''Fix:\<newline>```python\<newline>x = 2\<newline>```\<newline>and\<newline>```python\<newline>y\<newline>```''
     None (Some ''Python''))) = 0"
proof -
  let ?c = "''Fix:\<newline>```python\<newline>x = 2\<newline>```\<newline>and\<newline>```python\<newline>y\<newline>```''"
  let ?ps = "[''Fix:\<newline>'', ''```python\<newline>x = 2\<newline>```'', ''\<newline>and\<newline>'',
              ''```python\<newline>y\<newline>```'']"
  have p: "parts ?c = ?ps" by code_simp
  have n: "(1::nat) < length (parts ?c)" unfolding p by simp
  have s1: "snapshot_present (Some ''x = 1'') (Some ''Python'')" by code_simp
  have s2: "\<not> snapshot_present None (Some ''Python'')" by code_simp
  have c1: "isCodeBlock (?ps ! 1)" by code_simp
  have c0: "list_all (\<lambda>p. \<not> isCodeBlock p) (take 1 ?ps)" by code_simp
  have k: "min 1 (length (filter isCodeBlock ?ps)) = 1" by code_simp
  note d1 = diff_pairing[of ?c "Some ''x = 1''" "Some ''Python''"]
  note d2 = diff_pairing[of ?c None "Some ''Python''"]
  from d1 n have "is_diff (MarkdownResponse ?c (Some ''x = 1'') (Some ''Python'') ! 1) =
      (snapshot_present (Some ''x = 1'') (Some ''Python'') \<and> isCodeBlock (parts ?c ! 1) \<and>
       list_all (\<lambda>p. \<not> isCodeBlock p) (take 1 (parts ?c)))"
    by blast
  then have a: "is_diff (MarkdownResponse ?c (Some ''x = 1'') (Some ''Python'') ! 1)"
    unfolding p using s1 c1 c0 by (simp only: simp_thms)
  from d1 have "length (filter is_diff (MarkdownResponse ?c (Some ''x = 1'') (Some ''Python''))) =
      (if snapshot_present (Some ''x = 1'') (Some ''Python'')
       then min 1 (length (filter isCodeBlock (parts ?c))) else 0)"
    by blast
  then have b: "length (filter is_diff (MarkdownResponse ?c (Some ''x = 1'') (Some ''Python''))) = 1"
    unfolding p using s1 k by (simp only: if_True)
  from d2 have "length (filter is_diff (MarkdownResponse ?c None (Some ''Python''))) =
      (if snapshot_present None (Some ''Python'')
       then min 1 (length (filter isCodeBlock (parts ?c))) else 0)"
    by blast
  then have c: "length (filter is_diff (MarkdownResponse ?c None (Some ''Python''))) = 0"
    using s2 by (simp only: if_False)
  show ?thesis using n a b c by (simp only: simp_thms)
qed

text \<open>
  Claim C2. The top-level segmentation is lossless: the parts of a response, joined in
  order, are the response. A code part keeps its fences, so nothing has to be put back.
\<close>

theorem parts_concat: "concat (parts content) = content"
proof (cases "content = []")
  case True
  then show ?thesis by (simp add: parts_def split_rx_def truthy_def split: option.splits)
next
  case False
  then show ?thesis
    using split_loop_concat[of fence_rx "length content" "[]" content] fence_rx_captures
    by (simp add: parts_def split_rx_def concat_filter_truthy)
qed

theorem parts_concat_witness:
  "concat (parts ''Here is code:\<newline>```python\<newline>print(1)\<newline>```\<newline>done'') =
     ''Here is code:\<newline>```python\<newline>print(1)\<newline>```\<newline>done''"
  by (rule parts_concat)

text \<open>
  Claim C3, at the input of its scenario. The text starts with a list marker, so the
  whole text is rendered as one list: the two marker lines are its items, and the empty
  line and the line \<^verbatim>\<open>more text\<close> are rendered as nothing. The trailing text is lost.
\<close>

theorem list_then_text:
  "MarkdownResponse ''* item one\<newline>* item two\<newline>\<newline>more text'' None None =
     [Div [Ul [Some ''item one'', Some ''item two'', None, None]]]"
  by code_simp

text \<open>
  Claim C4 as stated fails: an unterminated fence that follows other text is not a code
  part. The pattern of the split needs a closing fence, so the text is one part, and it
  is prose because it does not start with a fence.
\<close>

theorem fence_after_text_is_prose:
  "MarkdownResponse ''hi\<newline>```js\<newline>console.log(1)'' None None =
     [Div [Span ''hi\<newline>```js\<newline>console.log(1)'']]"
  by code_simp

text \<open>
  Claim C4, amended. Every input with an unterminated fence is a run of closed blocks,
  then a text \<open>pre\<close> without a fence, the opening fence and a rest \<open>t\<close> without a fence
  (\<open>fence_decomposition\<close>). The segmenter never splits at the unterminated fence: the
  last part is \<open>pre\<close>, the fence and \<open>t\<close>, and it runs to the end of the input. That part
  is a code part exactly when \<open>pre\<close> is empty, that is when the part begins with the
  fence; it is then rendered as a code block, or as the diff when a snapshot is present
  and no closed block comes before it, and for a fence line of letters only the language
  is that line and the body the rest of the input, trimmed. When \<open>pre\<close> is not empty the
  part is no code part: it is handed whole to the rendering of text.
\<close>

theorem unterminated_fence:
  assumes "well_closed segs" and "unterminated pre t"
  shows "parts (concat (map block segs) @ pre @ fence @ t) =
           blocks_parts segs @ [pre @ fence @ t] \<and>
         isCodeBlock (pre @ fence @ t) = (pre = []) \<and>
         MarkdownResponse (concat (map block segs) @ pre @ fence @ t) oc l =
           render_parts oc l False (blocks_parts segs) @
           [if pre \<noteq> [] then Div (formattedPart (pre @ fence @ t))
            else if snapshot_present oc l \<and> segs = []
            then CodeComparison (prop_value oc) (code_body (fence @ t)) (prop_value l)
            else CodeBlock (code_lang (fence @ t)) (code_body (fence @ t))] \<and>
         (\<forall>tag b. pre = [] \<and> t = tag @ CHR 0x0A # b \<and> list_all is_alpha tag \<longrightarrow>
            code_lang (fence @ t) = tag \<and> code_body (fence @ t) = trim b)"
proof -
  let ?c = "concat (map block segs) @ pre @ fence @ t"
  have p: "parts ?c = blocks_parts segs @ [pre @ fence @ t]"
    by (rule closed_then_unterminated_parts[OF assms])
  have c: "isCodeBlock (pre @ fence @ t) = (pre = [])"
  proof (cases "pre = []")
    case True
    then show ?thesis by (simp add: isCodeBlock_def startsWith_def)
  next
    case False
    then show ?thesis using unterminated_not_code[OF assms(2)] by simp
  qed
  have r: "MarkdownResponse ?c oc l =
      render_parts oc l False (blocks_parts segs) @
      render_parts oc l (snapshot_present oc l \<and> segs \<noteq> []) [pre @ fence @ t]"
    unfolding MarkdownResponse_def p render_parts_append blocks_parts_code by simp
  have m: "render_parts oc l (snapshot_present oc l \<and> segs \<noteq> []) [pre @ fence @ t] =
      [if pre \<noteq> [] then Div (formattedPart (pre @ fence @ t))
       else if snapshot_present oc l \<and> segs = []
       then CodeComparison (prop_value oc) (code_body (fence @ t)) (prop_value l)
       else CodeBlock (code_lang (fence @ t)) (code_body (fence @ t))]"
    using c by (auto simp: snapshot_present_def)
  have b: "code_lang (fence @ t) = tag \<and> code_body (fence @ t) = trim b"
    if "t = tag @ CHR 0x0A # b" "list_all is_alpha tag" for tag b
  proof -
    have nf: "\<not> has_fence t" using assms(2) by (simp add: unterminated_def)
    have cb: "isCodeBlock (fence @ t)" by (simp add: isCodeBlock_def startsWith_def)
    have "takeWhile is_alpha t = tag" "dropWhile is_alpha t = CHR 0x0A # b"
      using that not_alpha_newline
      by (simp_all add: list_all_iff takeWhile_append2 dropWhile_append2)
    then show ?thesis
      using code_lang_eq[OF cb] unterminated_body[OF nf]
      by (simp add: fence_def drop_newline_def is_newline_def)
  qed
  show ?thesis using p c b unfolding r m by blast
qed

theorem unterminated_fence_witness:
  "well_closed [] \<and> unterminated [] ''js\<newline>console.log(1)'' \<and>
   parts ''```js\<newline>console.log(1)'' = [''```js\<newline>console.log(1)''] \<and>
   MarkdownResponse ''```js\<newline>console.log(1)'' None None =
     [CodeBlock ''js'' ''console.log(1)''] \<and>
   well_closed [(''a'', ''x'')] \<and> unterminated ''b'' ''js\<newline>y'' \<and>
   parts ''a```x```b```js\<newline>y'' = [''a'', ''```x```'', ''b```js\<newline>y''] \<and>
   isCodeBlock ''b```js\<newline>y'' = False"
proof -
  let ?t1 = "''js\<newline>console.log(1)''"
  let ?t2 = "''js\<newline>y''"
  have h1: "well_closed []" by code_simp
  have h2: "unterminated [] ?t1" by code_simp
  have h3: "well_closed [(''a'', ''x'')]" by code_simp
  have h4: "unterminated ''b'' ?t2" by code_simp
  have e1: "concat (map block []) @ [] @ fence @ ?t1 = ''```js\<newline>console.log(1)''"
    by code_simp
  have e2: "concat (map block [(''a'', ''x'')]) @ ''b'' @ fence @ ?t2 = ''a```x```b```js\<newline>y''"
    by code_simp
  have e2': "''b'' @ fence @ ?t2 = ''b```js\<newline>y''" by code_simp
  have b1: "blocks_parts [] @ [[] @ fence @ ?t1] = [''```js\<newline>console.log(1)'']"
    by code_simp
  have b2: "blocks_parts [(''a'', ''x'')] @ [''b'' @ fence @ ?t2] =
      [''a'', ''```x```'', ''b```js\<newline>y'']" by code_simp
  have n1: "render_parts None None False (blocks_parts []) @
      [if [] \<noteq> ([] :: string) then Div (formattedPart ([] @ fence @ ?t1))
       else if snapshot_present None None \<and> ([] :: (string \<times> string) list) = []
       then CodeComparison (prop_value None) (code_body (fence @ ?t1)) (prop_value None)
       else CodeBlock (code_lang (fence @ ?t1)) (code_body (fence @ ?t1))] =
      [CodeBlock ''js'' ''console.log(1)'']"
    by code_simp
  note t1 = unterminated_fence[OF h1 h2, of None None]
  note t2 = unterminated_fence[OF h3 h4, of None None]
  have p1: "parts ''```js\<newline>console.log(1)'' = [''```js\<newline>console.log(1)'']"
    using t1[THEN conjunct1] by (simp only: e1 b1)
  have m1: "MarkdownResponse ''```js\<newline>console.log(1)'' None None =
      [CodeBlock ''js'' ''console.log(1)'']"
    using t1[THEN conjunct2, THEN conjunct2, THEN conjunct1] by (simp only: e1 n1)
  have p2: "parts ''a```x```b```js\<newline>y'' = [''a'', ''```x```'', ''b```js\<newline>y'']"
    using t2[THEN conjunct1] by (simp only: e2 b2)
  have c2: "isCodeBlock ''b```js\<newline>y'' = False"
    using t2[THEN conjunct2, THEN conjunct1] by (simp only: e2' list.distinct)
  show ?thesis using h1 h2 h3 h4 p1 m1 p2 c2 by (simp only: simp_thms)
qed

text \<open>
  Claim C9, at a fence line that holds more than letters. The patterns that strip the
  opening fence line and read the language stop at the first character that is not a
  letter: for the tag \<^verbatim>\<open>c++\<close> the language is \<^verbatim>\<open>c\<close> and the rest of the fence line stays
  at the head of the body.
\<close>

theorem fence_line_with_symbols:
  "MarkdownResponse ''```c++\<newline>int x;\<newline>```'' None None =
     [CodeBlock ''c'' ''++\<newline>int x;'']"
  by code_simp


section \<open>Facts about the dispatcher\<close>

lemma github_no_match_empty: "match_groups github_rx [] = None"
  by code_simp

lemma reject_shape:
  "dispatch w (start st) = reject msg (start st) [] \<Longrightarrow>
   handleSubmit w st =
     ((start st)\<lparr>error := Some msg, isLoading := False\<rparr>, [])"
  by (simp add: handleSubmit_def reject_def)

lemma dispatch_missing:
  assumes "required_missing (mode st) (code st) (userInput st)"
  shows "\<exists>msg \<in> set (mode_messages (mode st)). dispatch w (start st) = reject msg (start st) []"
  using assms github_no_match_empty
  by (cases "mode st") (auto simp: dispatch_def start_def truthy_def)

lemma mode_messages_disjoint:
  "m \<noteq> m' \<Longrightarrow> set (mode_messages m) \<inter> set (mode_messages m') = {}"
  by (cases m; cases m'; simp)

lemma call_service_cases:
  "(\<exists>msg. call_service w c oc = Thrown msg [c]) \<or> (\<exists>r. call_service w c oc = Broke oc r [c])"
  by (cases "service w c") (auto simp: call_service_def)

lemma fetch_readme_cases:
  "(\<exists>msg calls. fetch_readme w st owner repo = reject msg st calls) \<or>
   (\<exists>r calls. fetch_readme w st owner repo = Broke [] r calls)"
  unfolding fetch_readme_def Let_def
  by (auto split: sum.splits)

lemma ends_well_reject: "ends_well st oc (reject msg st calls)"
  by (auto simp: ends_well_def)

lemma ends_well_call: "ends_well st oc (call_service w c oc)"
  using call_service_cases[of w c oc] by (auto simp: ends_well_def)

lemma ends_well_fetch: "ends_well st [] (fetch_readme w st owner repo)"
  using fetch_readme_cases[of w st owner repo] by (auto simp: ends_well_def)

lemma dispatch_ends_well:
  "ends_well st (if retainsOriginalCode (mode st) then code st else []) (dispatch w st)"
  by (cases "mode st")
     (simp_all add: dispatch_def ends_well_reject ends_well_call ends_well_fetch
        split: option.splits list.splits)

lemma dispatch_retains_code:
  "dispatch w st = Broke oc r calls \<Longrightarrow> retainsOriginalCode (mode st) \<Longrightarrow> truthy (code st)"
  by (cases "mode st") (auto simp: dispatch_def reject_def split: if_splits)

lemma no_snapshot_no_diff:
  "\<not> truthy oc \<Longrightarrow> filter is_diff (MarkdownResponse content (Some oc) l) = []"
  unfolding MarkdownResponse_def
  by (rule render_parts_no_diff) (simp add: snapshot_present_def prop_truthy_def)

lemma success_breaks:
  assumes "error (fst (handleSubmit w st)) = None"
  shows "\<exists>r calls. dispatch w (start st) =
           Broke (if retainsOriginalCode (mode st) then code st else []) r calls"
proof -
  have m: "mode (start st) = mode st" "code (start st) = code st"
    by (simp_all add: start_def)
  have "ends_well (start st) (if retainsOriginalCode (mode st) then code st else [])
          (dispatch w (start st))"
    using dispatch_ends_well[of "start st" w] unfolding m .
  then consider
    (a) msg calls where "dispatch w (start st) = reject msg (start st) calls"
    | (b) msg calls where "dispatch w (start st) = Thrown msg calls"
    | (c) r calls where "dispatch w (start st) =
          Broke (if retainsOriginalCode (mode st) then code st else []) r calls"
    unfolding ends_well_def by blast
  then show ?thesis
  proof cases
    case a
    then have "error (fst (handleSubmit w st)) = Some msg"
      by (simp add: handleSubmit_def reject_def)
    then show ?thesis using assms by simp
  next
    case b
    then have "error (fst (handleSubmit w st)) \<noteq> None"
      by (simp add: handleSubmit_def)
    then show ?thesis using assms by simp
  next
    case c
    then show ?thesis by blast
  qed
qed








lemma start_forgets:
  "start (st\<lparr>response := r, error := e, originalCodeForDiff := oc\<rparr>) = start st"
  by (simp add: start_def)

section \<open>The claims about the dispatcher and the code block\<close>

text \<open>
  Claim C5. In each of the eight modes, a submission with a required input missing
  (ASSIST: the code or the problem description empty; GENERATE: the description empty;
  DEBUG, REFACTOR, REVIEW, GENERATE_DOCS, GENERATE_TESTS: the code empty; ANALYZE_REPO: an
  input that does not match the repository pattern) makes no external call, shows a
  message that belongs to the mode and to no other mode, takes no snapshot, leaves the
  response empty and ends with the loading flag cleared.
\<close>

theorem validation_aborts:
  assumes "required_missing (mode st) (code st) (userInput st)"
  shows "snd (handleSubmit w st) = [] \<and>
         (\<exists>msg \<in> set (mode_messages (mode st)). error (fst (handleSubmit w st)) = Some msg) \<and>
         \<not> isLoading (fst (handleSubmit w st)) \<and>
         originalCodeForDiff (fst (handleSubmit w st)) = [] \<and>
         response (fst (handleSubmit w st)) = [] \<and>
         (\<forall>m. m \<noteq> mode st \<longrightarrow> set (mode_messages m) \<inter> set (mode_messages (mode st)) = {})"
proof -
  obtain msg where m: "msg \<in> set (mode_messages (mode st))"
    and d: "dispatch w (start st) = reject msg (start st) []"
    using dispatch_missing[OF assms] by blast
  show ?thesis
    using m reject_shape[OF d] mode_messages_disjoint
    by (auto simp: start_def)
qed

theorem validation_aborts_witness:
  "required_missing ASSIST ''x=1'' [] \<and>
   handleSubmit \<lparr>service = (\<lambda>c. Inr ''ok''), fetch = (\<lambda>u. Inl ''offline'')\<rparr>
     \<lparr>mode = ASSIST, language = ''Python'', code = ''x=1'', userInput = [],
      response = ''old answer'', isLoading = False, error = None,
      originalCodeForDiff = ''old code''\<rparr> =
     (\<lparr>mode = ASSIST, language = ''Python'', code = ''x=1'', userInput = [],
       response = [], isLoading = False,
       error = Some ''Please provide both code and a problem description.'',
       originalCodeForDiff = []\<rparr>, []) \<and>
   required_missing ANALYZE_REPO [] ''https://example.com/not-github'' \<and>
   handleSubmit \<lparr>service = (\<lambda>c. Inr ''ok''), fetch = (\<lambda>u. Inl ''offline'')\<rparr>
     \<lparr>mode = ANALYZE_REPO, language = ''Python'', code = [],
      userInput = ''https://example.com/not-github'',
      response = [], isLoading = False, error = None, originalCodeForDiff = []\<rparr> =
     (\<lparr>mode = ANALYZE_REPO, language = ''Python'', code = [],
       userInput = ''https://example.com/not-github'',
       response = [], isLoading = False,
       error = Some ''Invalid GitHub repository URL. Use format: https://github.com/owner/repo'',
       originalCodeForDiff = []\<rparr>, [])"
proof -
  let ?w = "\<lparr>service = (\<lambda>c. Inr ''ok''), fetch = (\<lambda>u. Inl ''offline'')\<rparr>"
  let ?s1 = "\<lparr>mode = ASSIST, language = ''Python'', code = ''x=1'', userInput = [],
      response = ''old answer'', isLoading = False, error = None,
      originalCodeForDiff = ''old code''\<rparr>"
  let ?s2 = "\<lparr>mode = ANALYZE_REPO, language = ''Python'', code = [],
      userInput = ''https://example.com/not-github'',
      response = [], isLoading = False, error = None, originalCodeForDiff = []\<rparr>"
  have h1: "required_missing (mode ?s1) (code ?s1) (userInput ?s1)" by simp
  have g: "match_groups github_rx ''https://example.com/not-github'' = None" by code_simp
  then have h2: "required_missing (mode ?s2) (code ?s2) (userInput ?s2)" by simp
  have e1: "handleSubmit ?w ?s1 =
     (\<lparr>mode = ASSIST, language = ''Python'', code = ''x=1'', userInput = [],
       response = [], isLoading = False,
       error = Some ''Please provide both code and a problem description.'',
       originalCodeForDiff = []\<rparr>, [])"
    using validation_aborts[OF h1, of ?w]
    by (simp add: handleSubmit_def dispatch_def start_def reject_def truthy_def)
  have e2: "handleSubmit ?w ?s2 =
     (\<lparr>mode = ANALYZE_REPO, language = ''Python'', code = [],
       userInput = ''https://example.com/not-github'',
       response = [], isLoading = False,
       error = Some ''Invalid GitHub repository URL. Use format: https://github.com/owner/repo'',
       originalCodeForDiff = []\<rparr>, [])"
    using validation_aborts[OF h2, of ?w] g
    by (simp add: handleSubmit_def dispatch_def start_def reject_def truthy_def)
  show ?thesis using h1 h2 e1 e2 by simp
qed

text \<open>
  Claim C6. After a submission that ends without an error, the snapshot of the original
  code is the submitted code in the modes ASSIST, DEBUG and REFACTOR, where it is not
  empty, and it is empty in the five other modes; there no response is rendered with a
  diff.
\<close>

theorem snapshot_iff_retaining_mode:
  assumes "error (fst (handleSubmit w st)) = None"
  shows "originalCodeForDiff (fst (handleSubmit w st)) =
           (if retainsOriginalCode (mode st) then code st else []) \<and>
         truthy (originalCodeForDiff (fst (handleSubmit w st))) = retainsOriginalCode (mode st) \<and>
         mode (fst (handleSubmit w st)) = mode st \<and>
         language (fst (handleSubmit w st)) = language st \<and>
         (\<not> retainsOriginalCode (mode st) \<longrightarrow>
            (\<forall>content. filter is_diff
               (MarkdownResponse content (Some (originalCodeForDiff (fst (handleSubmit w st))))
                  (Some (language (fst (handleSubmit w st))))) = []))"
proof -
  obtain r calls where d: "dispatch w (start st) =
      Broke (if retainsOriginalCode (mode st) then code st else []) r calls"
    using success_breaks[OF assms] by blast
  have m: "mode (start st) = mode st" "code (start st) = code st"
    by (simp_all add: start_def)
  have c: "retainsOriginalCode (mode st) \<Longrightarrow> truthy (code st)"
    using dispatch_retains_code[OF d] m by simp
  have o: "originalCodeForDiff (fst (handleSubmit w st)) =
      (if retainsOriginalCode (mode st) then code st else [])"
    using d by (simp add: handleSubmit_def)
  have k: "mode (fst (handleSubmit w st)) = mode st"
          "language (fst (handleSubmit w st)) = language st"
    using d by (simp_all add: handleSubmit_def start_def)
  have t: "truthy (originalCodeForDiff (fst (handleSubmit w st))) = retainsOriginalCode (mode st)"
    unfolding o using c by (simp add: truthy_def)
  have n: "\<not> retainsOriginalCode (mode st) \<Longrightarrow>
      filter is_diff
        (MarkdownResponse content (Some (originalCodeForDiff (fst (handleSubmit w st))))
           (Some (language (fst (handleSubmit w st))))) = []" for content
    using t by (intro no_snapshot_no_diff) simp
  show ?thesis using o t k n by blast
qed

theorem snapshot_iff_retaining_mode_witness:
  "error (fst (handleSubmit
      \<lparr>service = (\<lambda>c. Inr ''```python\<newline>def f():\<newline>    return None\<newline>```''),
       fetch = (\<lambda>u. Inl ''offline'')\<rparr>
      \<lparr>mode = REFACTOR, language = ''Python'', code = ''def f(): pass'', userInput = [],
       response = [], isLoading = False, error = None, originalCodeForDiff = []\<rparr>)) = None \<and>
   originalCodeForDiff (fst (handleSubmit
      \<lparr>service = (\<lambda>c. Inr ''```python\<newline>def f():\<newline>    return None\<newline>```''),
       fetch = (\<lambda>u. Inl ''offline'')\<rparr>
      \<lparr>mode = REFACTOR, language = ''Python'', code = ''def f(): pass'', userInput = [],
       response = [], isLoading = False, error = None, originalCodeForDiff = []\<rparr>)) =
     ''def f(): pass'' \<and>
   response_panel (fst (handleSubmit
      \<lparr>service = (\<lambda>c. Inr ''```python\<newline>def f():\<newline>    return None\<newline>```''),
       fetch = (\<lambda>u. Inl ''offline'')\<rparr>
      \<lparr>mode = REFACTOR, language = ''Python'', code = ''def f(): pass'', userInput = [],
       response = [], isLoading = False, error = None, originalCodeForDiff = []\<rparr>)) =
     Rendered [CodeComparison ''def f(): pass'' ''def f():\<newline>    return None'' ''Python'']"
proof -
  let ?w = "\<lparr>service = (\<lambda>c. Inr ''```python\<newline>def f():\<newline>    return None\<newline>```''),
       fetch = (\<lambda>u. Inl ''offline'')\<rparr>"
  let ?st = "\<lparr>mode = REFACTOR, language = ''Python'', code = ''def f(): pass'', userInput = [],
       response = [], isLoading = False, error = None, originalCodeForDiff = []\<rparr>"
  have h: "error (fst (handleSubmit ?w ?st)) = None"
    by (simp add: handleSubmit_def dispatch_def start_def call_service_def truthy_def)
  from snapshot_iff_retaining_mode[OF h]
  have o: "originalCodeForDiff (fst (handleSubmit ?w ?st)) =
      (if retainsOriginalCode (mode ?st) then code ?st else [])"
    by blast
  then have o': "originalCodeForDiff (fst (handleSubmit ?w ?st)) = ''def f(): pass''"
    by simp
  have p: "response_panel (fst (handleSubmit ?w ?st)) =
     Rendered [CodeComparison ''def f(): pass'' ''def f():\<newline>    return None'' ''Python'']"
    by code_simp
  show ?thesis using h o' p by (simp only: simp_thms)
qed

text \<open>
  Claim C7. A click on a mode button, whatever the current and the chosen mode, sets the
  mode and empties the code input, the user input, the response, the error and the
  snapshot; the language, the theme and the authentication state stay as they were.
\<close>

theorem mode_switch_clears:
  "codeAssistant (click_mode v a) =
     \<lparr>mode = v, language = language (codeAssistant a), code = [], userInput = [],
      response = [], isLoading = isLoading (codeAssistant a), error = None,
      originalCodeForDiff = []\<rparr> \<and>
   theme (click_mode v a) = theme a \<and>
   isAuthenticated (click_mode v a) = isAuthenticated a"
  by (simp add: click_mode_def ModeButton_onClick_def)

theorem mode_switch_clears_witness:
  "click_mode GENERATE
     \<lparr>isAuthenticated = True, theme = Dark,
      codeAssistant = \<lparr>mode = REFACTOR, language = ''Python'', code = ''def f(): pass'',
        userInput = ''draft'', response = ''answer'', isLoading = False,
        error = Some ''old error'', originalCodeForDiff = ''def f(): pass''\<rparr>\<rparr> =
     \<lparr>isAuthenticated = True, theme = Dark,
      codeAssistant = \<lparr>mode = GENERATE, language = ''Python'', code = [],
        userInput = [], response = [], isLoading = False,
        error = None, originalCodeForDiff = []\<rparr>\<rparr>"
  using mode_switch_clears[of GENERATE "\<lparr>isAuthenticated = True, theme = Dark,
      codeAssistant = \<lparr>mode = REFACTOR, language = ''Python'', code = ''def f(): pass'',
        userInput = ''draft'', response = ''answer'', isLoading = False,
        error = Some ''old error'', originalCodeForDiff = ''def f(): pass''\<rparr>\<rparr>"]
  by (simp add: click_mode_def)




text \<open>
  Claim C10. The handler clears the response, the error and the snapshot before it looks
  at the inputs: its outcome does not depend on what they held before. So after a
  submission with a required input missing the response and the snapshot are empty,
  although no external call was made.
\<close>

theorem submit_clears_first:
  "handleSubmit w (st\<lparr>response := r, error := e, originalCodeForDiff := oc\<rparr>) =
     handleSubmit w st \<and>
   (required_missing (mode st) (code st) (userInput st) \<longrightarrow>
      response (fst (handleSubmit w st)) = [] \<and>
      originalCodeForDiff (fst (handleSubmit w st)) = [] \<and>
      snd (handleSubmit w st) = [])"
proof -
  have a: "handleSubmit w (st\<lparr>response := r, error := e, originalCodeForDiff := oc\<rparr>) =
      handleSubmit w st"
    unfolding handleSubmit_def start_forgets ..
  have b: "response (fst (handleSubmit w st)) = [] \<and>
      originalCodeForDiff (fst (handleSubmit w st)) = [] \<and> snd (handleSubmit w st) = []"
    if rm: "required_missing (mode st) (code st) (userInput st)"
  proof -
    obtain msg where "dispatch w (start st) = reject msg (start st) []"
      using dispatch_missing[OF rm] by blast
    from reject_shape[OF this] show ?thesis by (simp add: start_def)
  qed
  show ?thesis using a b by blast
qed

theorem submit_clears_first_witness:
  "required_missing DEBUG [] [] \<and>
   response (fst (handleSubmit \<lparr>service = (\<lambda>c. Inr ''ok''), fetch = (\<lambda>u. Inl ''offline'')\<rparr>
     \<lparr>mode = DEBUG, language = ''Python'', code = [], userInput = [],
      response = ''old answer'', isLoading = False, error = Some ''old error'',
      originalCodeForDiff = ''old code''\<rparr>)) = [] \<and>
   originalCodeForDiff (fst (handleSubmit \<lparr>service = (\<lambda>c. Inr ''ok''), fetch = (\<lambda>u. Inl ''offline'')\<rparr>
     \<lparr>mode = DEBUG, language = ''Python'', code = [], userInput = [],
      response = ''old answer'', isLoading = False, error = Some ''old error'',
      originalCodeForDiff = ''old code''\<rparr>)) = [] \<and>
   snd (handleSubmit \<lparr>service = (\<lambda>c. Inr ''ok''), fetch = (\<lambda>u. Inl ''offline'')\<rparr>
     \<lparr>mode = DEBUG, language = ''Python'', code = [], userInput = [],
      response = ''old answer'', isLoading = False, error = Some ''old error'',
      originalCodeForDiff = ''old code''\<rparr>) = []"
proof -
  let ?w = "\<lparr>service = (\<lambda>c. Inr ''ok''), fetch = (\<lambda>u. Inl ''offline'')\<rparr>"
  let ?st = "\<lparr>mode = DEBUG, language = ''Python'', code = [], userInput = [],
      response = ''old answer'', isLoading = False, error = Some ''old error'',
      originalCodeForDiff = ''old code''\<rparr>"
  have h: "required_missing (mode ?st) (code ?st) (userInput ?st)" by simp
  have h': "required_missing DEBUG [] []" by simp
  from submit_clears_first[where w = ?w and st = ?st] h
  have "response (fst (handleSubmit ?w ?st)) = [] \<and>
      originalCodeForDiff (fst (handleSubmit ?w ?st)) = [] \<and> snd (handleSubmit ?w ?st) = []"
    by blast
  then show ?thesis using h' by blast
qed

end
